theory Spec2Isabelle
  imports Complex_Main
begin

section \<open>Python values\<close>

text \<open>
  The class \<open>G2A\<close> of \<open>ga.py\<close> keeps every individual as a Python dict with string
  keys. The values stored under those keys are \<open>None\<close>, booleans, integers, floats and
  strings. A float is either a finite number, one of the two infinities, or not-a-number;
  the finite ones are idealised as reals (rounding to 53 bits is not modelled).
\<close>

datatype pyfloat = Fin real | PInf | NInf | NaN

datatype pyval = VNone | VBool bool | VInt int | VFloat pyfloat | VStr string

type_synonym individual = "string \<rightharpoonup> pyval"

datatype error =
    KeyError string
  | TypeError string
  | ValueError string
  | IndexError string
  | AssertionError string
  | AttributeError string
  | ZeroDivisionError string
  | RaisedException string

text \<open>\<open>str(e)\<close>: a \<open>KeyError\<close> prints the repr of its key, the others their message.\<close>

fun str_exc :: "error \<Rightarrow> string" where
  "str_exc (KeyError k) = [CHR 0x27] @ k @ [CHR 0x27]"
| "str_exc (TypeError m) = m"
| "str_exc (ValueError m) = m"
| "str_exc (IndexError m) = m"
| "str_exc (AssertionError m) = m"
| "str_exc (AttributeError m) = m"
| "str_exc (ZeroDivisionError m) = m"
| "str_exc (RaisedException m) = m"

text \<open>Python's \<open><\<close> on floats: every comparison with not-a-number is false.\<close>

fun flt :: "pyfloat \<Rightarrow> pyfloat \<Rightarrow> bool" where
  "flt NaN _ = False"
| "flt _ NaN = False"
| "flt (Fin a) (Fin b) = (a < b)"
| "flt (Fin _) PInf = True"
| "flt (Fin _) NInf = False"
| "flt PInf _ = False"
| "flt NInf NInf = False"
| "flt NInf _ = True"

text \<open>\<open>1 / x\<close> for a float \<open>x\<close>; division by zero raises.\<close>

fun one_over :: "pyfloat \<Rightarrow> error + pyfloat" where
  "one_over (Fin r) =
     (if r = 0 then Inl (ZeroDivisionError ''float division by zero'') else Inr (Fin (1 / r)))"
| "one_over PInf = Inr (Fin 0)"
| "one_over NInf = Inr (Fin 0)"
| "one_over NaN = Inr NaN"

text \<open>Truth value of a Python object, as \<open>if x:\<close> tests it.\<close>

fun truthy :: "pyval \<Rightarrow> bool" where
  "truthy VNone = False"
| "truthy (VBool b) = b"
| "truthy (VInt i) = (i \<noteq> 0)"
| "truthy (VFloat f) = (f \<noteq> Fin 0)"
| "truthy (VStr s) = (s \<noteq> [])"

fun type_name :: "pyval \<Rightarrow> string" where
  "type_name VNone = ''NoneType''"
| "type_name (VBool _) = ''bool''"
| "type_name (VInt _) = ''int''"
| "type_name (VFloat _) = ''float''"
| "type_name (VStr _) = ''str''"

text \<open>\<open>x + '\n'\<close> where \<open>x\<close> is not a string.\<close>

definition add_str_error :: "pyval \<Rightarrow> error" where
  "add_str_error v =
     TypeError (''unsupported operand type(s) for +: '' @ [CHR 0x27] @ type_name v @ [CHR 0x27]
                @ '' and '' @ [CHR 0x27] @ ''str'' @ [CHR 0x27])"

text \<open>Decimal rendering of a non-negative integer inside an f-string.\<close>

fun str_nat :: "nat \<Rightarrow> string" where
  "str_nat n =
     (if n < 10 then [char_of (48 + n)] else str_nat (n div 10) @ [char_of (48 + n mod 10)])"

declare str_nat.simps [simp del]

text \<open>\<open>s.split('\n')\<close>: the pieces between line feeds; always at least one piece.\<close>

fun split_nl :: "string \<Rightarrow> string list" where
  "split_nl [] = [[]]"
| "split_nl (c # cs) =
     (if c = CHR 0x0A then [] # split_nl cs
      else (case split_nl cs of [] \<Rightarrow> [[c]] | w # ws \<Rightarrow> (c # w) # ws))"

text \<open>\<open>xs[-2]\<close>: the second-to-last element, or \<open>IndexError\<close>.\<close>

definition second_to_last :: "'a list \<Rightarrow> error + 'a" where
  "second_to_last xs =
     (if 2 \<le> length xs then Inr (xs ! (length xs - 2))
      else Inl (IndexError ''list index out of range''))"

section \<open>The outside world\<close>

text \<open>
  A launched harness process. \<open>cmd\<close> is the printed form of its argument list;
  \<open>remaining\<close> is the time the process still needs when it is waited on (\<open>None\<close>: it
  never finishes). \<open>run_code\<close> redirects the output of the process to a file, so
  \<open>communicate(timeout=20)\<close> has no pipe to serve and ends in
  \<open>wait(timeout=...)\<close> with what is left of the 20 seconds at that moment;
  \<open>deadline_left\<close> is the printed form of that number.
\<close>

record proc =
  cmd :: string
  remaining :: "nat option"
  deadline_left :: string

text \<open>\<open>p.communicate(timeout=t)\<close> returns iff the process ends within \<open>t\<close>.\<close>

definition communicate :: "proc \<Rightarrow> nat \<Rightarrow> bool" where
  "communicate p t = (case remaining p of None \<Rightarrow> False | Some d \<Rightarrow> d \<le> t)"

text \<open>
  \<open>str(e)\<close> of the \<open>subprocess.TimeoutExpired\<close> raised otherwise. The exception
  carries the command and the timeout of the \<open>wait\<close> that gave up, which is the time
  that was left, not the 20 seconds asked for.
\<close>

definition timeout_msg :: "proc \<Rightarrow> string" where
  "timeout_msg p =
     ''Command '' @ [CHR 0x27] @ cmd p @ [CHR 0x27] @ '' timed out after '' @ deadline_left p @
     '' seconds''"

datatype event = Launched nat | Waited nat nat | Killed nat

type_synonym message = "string \<times> string"

text \<open>
  Everything \<open>ga.py\<close> calls but does not define is a field of the environment:
  the helpers of \<open>utils.utils\<close> (\<open>filter_traceback\<close>, \<open>process_code\<close>,
  \<open>chat_completion\<close>, \<open>multi_chat_completion\<close>, the prompt files read by
  \<open>file_to_string\<close>), Python's \<open>float\<close> and \<open>str.format\<close>, numpy's random
  generator, and the operating system. \<open>spawn\<close> stands for the part of \<open>run_code\<close>
  after its dictionary reads: writing the code file, \<open>Popen\<close> and
  \<open>block_until_running\<close>; it either raises or hands back the process. \<open>capture\<close> is
  what \<open>open\<close> and \<open>read\<close> give for the stdout file of a finished process: its
  text, or the exception they raise (a file that cannot be opened, bytes that cannot be
  decoded). Oracles that answer
  differently in each generation take the iteration number; those asked once per
  individual also take the response id.
\<close>

record env =
  spawn :: "nat \<Rightarrow> nat \<Rightarrow> string \<Rightarrow> pyval \<Rightarrow> error + proc"
  capture :: "nat \<Rightarrow> nat \<Rightarrow> error + string"
  filter_traceback :: "string \<Rightarrow> string"
  py_float :: "string \<Rightarrow> error + pyfloat"
  process_code :: "string \<Rightarrow> string option"
  format :: "string \<Rightarrow> (string \<times> pyval) list \<Rightarrow> error + string"
  chat_completion :: "nat \<Rightarrow> message list \<Rightarrow> string list"
  multi_chat_completion :: "nat \<Rightarrow> message list list \<Rightarrow> string list list"
  choice_draw :: "nat \<Rightarrow> nat \<Rightarrow> nat \<times> nat"
  uniform :: "nat \<Rightarrow> nat \<Rightarrow> real"
  generator_system_prompt :: string
  initial_user :: string
  seed_function :: string
  ga_crossover_prompt :: string
  ga_mutate_prompt :: string

record cfg =
  pop_size :: nat
  max_fe :: int
  diversify :: bool
  mutation_rate :: real
  problem_description :: string

section \<open>Run state\<close>

text \<open>
  The attributes of a \<open>G2A\<close> object. An attribute that the constructor does not assign
  before it can be read is optional: reading it while it is \<open>None\<close> raises
  \<open>AttributeError\<close>. \<open>trace\<close> is not an attribute: it records, in program order, what
  the object did to harness processes. The two \<open>print_*_prompt\<close> flags only guard
  logging calls and are left out together with the logging.
\<close>

record run_state =
  iteration :: nat
  function_evals :: nat
  elitist :: "individual option"
  best_obj_overall :: pyfloat
  best_code_overall :: "pyval option"
  best_desc_overall :: "pyval option"
  best_code_path_overall :: "pyval option"
  population :: "individual list"
  system_prompt :: "string option"
  trace :: "event list"

section \<open>Evaluating a population\<close>

definition mark_invalid_individual :: "individual \<Rightarrow> string \<Rightarrow> individual" where
  "mark_invalid_individual individual traceback_msg =
     individual(''exec_success'' \<mapsto> VBool False,
                ''obj'' \<mapsto> VFloat PInf,
                ''fitness'' \<mapsto> VInt 0,
                ''traceback_msg'' \<mapsto> VStr traceback_msg)"

definition run_code :: "env \<Rightarrow> run_state \<Rightarrow> individual \<Rightarrow> nat \<Rightarrow> error + proc" where
  "run_code e st individual response_id =
     (case individual ''code'' of
        None \<Rightarrow> Inl (KeyError ''code'')
      | Some c \<Rightarrow>
         (case c of
            VStr s \<Rightarrow>
              (case individual ''stdout_filepath'' of
                 None \<Rightarrow> Inl (KeyError ''stdout_filepath'')
               | Some path \<Rightarrow> spawn e (iteration st) response_id s path)
          | _ \<Rightarrow> Inl (add_str_error c)))"

text \<open>
  The first loop of \<open>evaluate_population\<close>: it launches every individual with code and
  pairs each individual with its process, or with \<open>None\<close>.
\<close>

fun launch_loop ::
  "env \<Rightarrow> nat \<Rightarrow> individual list \<Rightarrow> run_state \<Rightarrow>
     error + ((individual \<times> proc option) list \<times> run_state)" where
  "launch_loop e response_id [] st = Inr ([], st)"
| "launch_loop e response_id (ind # rest) st =
     (case ind ''code'' of
        None \<Rightarrow> Inl (KeyError ''code'')
      | Some c \<Rightarrow>
          if c = VNone then
            (case launch_loop e (Suc response_id) rest st of
               Inl err \<Rightarrow> Inl err
             | Inr (rs, st') \<Rightarrow>
                 Inr ((mark_invalid_individual ind ''Invalid response!'', None) # rs, st'))
          else
            (let st1 = st\<lparr>function_evals := function_evals st + 1\<rparr> in
             case run_code e st1 ind response_id of
               Inl ex \<Rightarrow>
                 (case launch_loop e (Suc response_id) rest st1 of
                    Inl err \<Rightarrow> Inl err
                  | Inr (rs, st') \<Rightarrow>
                      Inr ((mark_invalid_individual ind (str_exc ex), None) # rs, st'))
             | Inr p \<Rightarrow>
                 (case launch_loop e (Suc response_id) rest
                         (st1\<lparr>trace := trace st1 @ [Launched response_id]\<rparr>) of
                    Inl err \<Rightarrow> Inl err
                  | Inr (rs, st') \<Rightarrow> Inr ((ind, Some p) # rs, st'))))"

text \<open>
  The body of the second loop after a process has finished: the capture is filtered for
  a traceback, and without one its second-to-last line is read as the objective.
  Whatever is raised between \<open>try\<close> and \<open>except\<close> (an index error, a failed
  conversion, the failed assertion) ends in \<open>mark_invalid_individual\<close>; an objective
  already stored at that moment is overwritten there.
\<close>

definition invalid_output_msg :: string where
  "invalid_output_msg = ''Invalid std out / objective value!''"

definition score :: "env \<Rightarrow> individual \<Rightarrow> string \<Rightarrow> individual" where
  "score e individual stdout_str =
     (let traceback_msg = filter_traceback e stdout_str in
      if traceback_msg = [] then
        (case second_to_last (split_nl stdout_str) of
           Inl _ \<Rightarrow> mark_invalid_individual individual invalid_output_msg
         | Inr line \<Rightarrow>
            (case py_float e line of
               Inl _ \<Rightarrow> mark_invalid_individual individual invalid_output_msg
             | Inr v \<Rightarrow>
                (let ind1 = individual(''obj'' \<mapsto> VFloat v) in
                 if flt (Fin 0) v then
                   (case one_over v of
                      Inl _ \<Rightarrow> mark_invalid_individual ind1 invalid_output_msg
                    | Inr f \<Rightarrow> ind1(''fitness'' \<mapsto> VFloat f, ''exec_success'' \<mapsto> VBool True))
                 else mark_invalid_individual ind1 invalid_output_msg)))
      else mark_invalid_individual individual traceback_msg)"

text \<open>
  The second loop: wait for each launched process with a deadline of 20. The stdout
  file of a finished process is opened and read outside every \<open>try\<close>, so an
  exception raised there leaves \<open>evaluate_population\<close>.
\<close>

fun wait_loop ::
  "env \<Rightarrow> nat \<Rightarrow> nat \<Rightarrow> (individual \<times> proc option) list \<Rightarrow> event list \<Rightarrow>
     error + (individual list \<times> event list)" where
  "wait_loop e it response_id [] tr = Inr ([], tr)"
| "wait_loop e it response_id ((ind, None) # rest) tr =
     (case wait_loop e it (Suc response_id) rest tr of
        Inl err \<Rightarrow> Inl err
      | Inr (ps, tr') \<Rightarrow> Inr (ind # ps, tr'))"
| "wait_loop e it response_id ((ind, Some p) # rest) tr =
     (if communicate p 20 then
        (case ind ''stdout_filepath'' of
           None \<Rightarrow> Inl (KeyError ''stdout_filepath'')
         | Some path \<Rightarrow>
            (case capture e it response_id of
               Inl err \<Rightarrow> Inl err
             | Inr stdout_str \<Rightarrow>
                (case wait_loop e it (Suc response_id) rest (tr @ [Waited response_id 20]) of
                   Inl err \<Rightarrow> Inl err
                 | Inr (ps, tr') \<Rightarrow> Inr (score e ind stdout_str # ps, tr'))))
      else
        (case wait_loop e it (Suc response_id) rest
                (tr @ [Waited response_id 20, Killed response_id]) of
           Inl err \<Rightarrow> Inl err
         | Inr (ps, tr') \<Rightarrow> Inr (mark_invalid_individual ind (timeout_msg p) # ps, tr')))"

definition evaluate_population ::
  "env \<Rightarrow> run_state \<Rightarrow> individual list \<Rightarrow> error + (individual list \<times> run_state)" where
  "evaluate_population e st pop =
     (case launch_loop e 0 pop st of
        Inl err \<Rightarrow> Inl err
      | Inr (inner_runs, st1) \<Rightarrow>
         (case wait_loop e (iteration st1) 0 inner_runs (trace st1) of
            Inl err \<Rightarrow> Inl err
          | Inr (pop', tr) \<Rightarrow> Inr (pop', st1\<lparr>trace := tr\<rparr>)))"

section \<open>Bookkeeping after a generation\<close>

fun bind_exc :: "error + 'a \<Rightarrow> ('a \<Rightarrow> error + 'b) \<Rightarrow> error + 'b" where
  "bind_exc (Inl err) f = Inl err"
| "bind_exc (Inr x) f = f x"

text \<open>\<open>d[k]\<close> on a dict.\<close>

definition lookup :: "individual \<Rightarrow> string \<Rightarrow> error + pyval" where
  "lookup d k = (case d k of None \<Rightarrow> Inl (KeyError k) | Some v \<Rightarrow> Inr v)"

text \<open>
  The number that comparisons and \<open>np.array\<close> see in an objective. Integers and
  booleans compare as numbers; \<open>None\<close> and strings make the comparison raise.
\<close>

fun num_of :: "pyval \<Rightarrow> error + pyfloat" where
  "num_of (VFloat f) = Inr f"
| "num_of (VInt i) = Inr (Fin (of_int i))"
| "num_of (VBool b) = Inr (Fin (if b then 1 else 0))"
| "num_of v = Inl (TypeError (''not a number: '' @ type_name v))"

text \<open>
  \<open>objs = [individual["obj"] for individual in population]\<close>: the comprehension
  ends before anything compares the values, so a missing key is reported before a value
  that is no number.
\<close>

fun raw_objs :: "individual list \<Rightarrow> error + pyval list" where
  "raw_objs [] = Inr []"
| "raw_objs (p # ps) =
     (case lookup p ''obj'' of
        Inl err \<Rightarrow> Inl err
      | Inr v \<Rightarrow> (case raw_objs ps of Inl err \<Rightarrow> Inl err | Inr vs \<Rightarrow> Inr (v # vs)))"

fun nums_of :: "pyval list \<Rightarrow> error + pyfloat list" where
  "nums_of [] = Inr []"
| "nums_of (v # vs) =
     (case num_of v of
        Inl err \<Rightarrow> Inl err
      | Inr x \<Rightarrow> (case nums_of vs of Inl err \<Rightarrow> Inl err | Inr xs \<Rightarrow> Inr (x # xs)))"

definition objs_of :: "individual list \<Rightarrow> error + pyfloat list" where
  "objs_of pop = bind_exc (raw_objs pop) nums_of"

text \<open>Python's \<open>min\<close>: the running minimum changes only for a strictly smaller item.\<close>

fun min_scan :: "pyfloat \<Rightarrow> pyfloat list \<Rightarrow> pyfloat" where
  "min_scan m [] = m"
| "min_scan m (y # ys) = min_scan (if flt y m then y else m) ys"

definition py_min :: "pyfloat list \<Rightarrow> error + pyfloat" where
  "py_min xs =
     (case xs of
        [] \<Rightarrow> Inl (ValueError ''min() arg is an empty sequence'')
      | x # rest \<Rightarrow> Inr (min_scan x rest))"

text \<open>
  numpy's \<open>argmin\<close> on a float array: the index moves whenever \<open>y >= current\<close> is
  false, and the scan stops at the first not-a-number.
\<close>

fun argmin_scan :: "pyfloat \<Rightarrow> nat \<Rightarrow> nat \<Rightarrow> pyfloat list \<Rightarrow> nat" where
  "argmin_scan mp mi i [] = mi"
| "argmin_scan mp mi i (y # ys) =
     (if mp = NaN then mi
      else if y = NaN \<or> flt y mp then argmin_scan y i (Suc i) ys
      else argmin_scan mp mi (Suc i) ys)"

definition np_argmin :: "pyfloat list \<Rightarrow> error + nat" where
  "np_argmin xs =
     (case xs of
        [] \<Rightarrow> Inl (ValueError ''attempt to get argmin of an empty sequence'')
      | x # rest \<Rightarrow> Inr (argmin_scan x 0 1 rest))"

definition read_attr :: "string \<Rightarrow> 'a option \<Rightarrow> error + 'a" where
  "read_attr name a = (case a of None \<Rightarrow> Inl (AttributeError name) | Some v \<Rightarrow> Inr v)"

text \<open>The first \<open>if\<close> of \<open>update_iter\<close>: the best-overall fields.\<close>

definition update_best_overall ::
  "run_state \<Rightarrow> pyfloat \<Rightarrow> individual \<Rightarrow> error + run_state" where
  "update_best_overall st best_obj best =
     (if flt best_obj (best_obj_overall st) then
        bind_exc (lookup best ''code'') (\<lambda>c.
        bind_exc (lookup best ''description'') (\<lambda>d.
        bind_exc (lookup best ''code_path'') (\<lambda>cp.
          Inr (st\<lparr>best_obj_overall := best_obj,
                  best_code_overall := Some c,
                  best_desc_overall := Some d,
                  best_code_path_overall := Some cp\<rparr>))))
      else Inr st)"

text \<open>The second \<open>if\<close>: the elitist.\<close>

definition update_elitist ::
  "run_state \<Rightarrow> pyfloat \<Rightarrow> individual \<Rightarrow> error + run_state" where
  "update_elitist st best_obj best =
     (case elitist st of
        None \<Rightarrow> Inr (st\<lparr>elitist := Some best\<rparr>)
      | Some el \<Rightarrow>
          bind_exc (lookup el ''obj'') (\<lambda>v.
          bind_exc (num_of v) (\<lambda>el_obj.
            Inr (if flt best_obj el_obj then st\<lparr>elitist := Some best\<rparr> else st))))"

definition update_iter :: "run_state \<Rightarrow> error + run_state" where
  "update_iter st =
     (let pop = population st in
      bind_exc (objs_of pop) (\<lambda>objs.
      bind_exc (py_min objs) (\<lambda>best_obj.
      bind_exc (np_argmin objs) (\<lambda>best_sample_idx.
      bind_exc (update_best_overall st best_obj (pop ! best_sample_idx)) (\<lambda>st1.
      bind_exc (update_elitist st1 best_obj (pop ! best_sample_idx)) (\<lambda>st2.
      bind_exc (read_attr ''best_code_path_overall'' (best_code_path_overall st2)) (\<lambda>_.
        Inr (st2\<lparr>iteration := iteration st2 + 1\<rparr>))))))))"

section \<open>Selection\<close>

text \<open>\<open>[individual for individual in population if individual["exec_success"]]\<close>\<close>

fun successful :: "individual list \<Rightarrow> error + individual list" where
  "successful [] = Inr []"
| "successful (p # ps) =
     (case lookup p ''exec_success'' of
        Inl err \<Rightarrow> Inl err
      | Inr v \<Rightarrow>
         (case successful ps of
            Inl err \<Rightarrow> Inl err
          | Inr qs \<Rightarrow> Inr (if truthy v then p # qs else qs)))"

text \<open>
  \<open>np.random.choice(population, size=2, replace=False)\<close>. It raises on fewer than two
  entries. Otherwise the two raw random numbers pick a position among all \<open>n\<close> and a
  position among the \<open>n - 1\<close> others, so that every ordered pair of different positions
  can come out and no other.
\<close>

definition second_position :: "nat \<Rightarrow> nat \<Rightarrow> nat \<Rightarrow> nat" where
  "second_position n i b = (let r = b mod (n - 1) in if r < i then r else Suc r)"

definition random_choice2 :: "nat \<times> nat \<Rightarrow> 'a list \<Rightarrow> error + 'a list" where
  "random_choice2 ab pop =
     (let n = length pop in
      if n = 0 then
        Inl (ValueError ([CHR 0x27] @ ''a'' @ [CHR 0x27]
                         @ '' cannot be empty unless no samples are taken''))
      else if n < 2 then
        Inl (ValueError (''Cannot take a larger sample than population when ''
                         @ [CHR 0x27] @ ''replace=False'' @ [CHR 0x27]))
      else
        (let i = fst ab mod n in Inr [pop ! i, pop ! second_position n i (snd ab)]))"

fun select_pairs :: "env \<Rightarrow> nat \<Rightarrow> nat \<Rightarrow> nat \<Rightarrow> individual list \<Rightarrow> error + individual list" where
  "select_pairs e it k 0 pop = Inr []"
| "select_pairs e it k (Suc m) pop =
     (case random_choice2 (choice_draw e it k) pop of
        Inl err \<Rightarrow> Inl err
      | Inr parents \<Rightarrow>
         (case select_pairs e it (Suc k) m pop of
            Inl err \<Rightarrow> Inl err
          | Inr sel \<Rightarrow> Inr (parents @ sel)))"

definition random_select ::
  "env \<Rightarrow> cfg \<Rightarrow> run_state \<Rightarrow> individual list \<Rightarrow> error + individual list" where
  "random_select e c st pop =
     bind_exc (successful pop) (\<lambda>ok.
     bind_exc (select_pairs e (iteration st) 0 (pop_size c) ok) (\<lambda>selected_population.
       if length selected_population = 2 * pop_size c then Inr selected_population
       else Inl (AssertionError [])))"

section \<open>Individuals from model responses\<close>

text \<open>
  \<open>response_to_individual\<close>. \<open>process_code\<close> yields the code or \<open>None\<close>; the line
  \<open>file.writelines(code + '\n')\<close> raises on \<open>None\<close>. The source rebinds \<open>file_name\<close>
  before it tests \<open>file_name is None\<close> a second time, so the stdout path is always the
  response file's name followed by \<open>_stdout.txt\<close>.
\<close>

definition response_to_individual ::
  "env \<Rightarrow> run_state \<Rightarrow> string \<Rightarrow> nat \<Rightarrow> string option \<Rightarrow> error + individual" where
  "response_to_individual e st response response_id file_name =
     (case process_code e response of
        None \<Rightarrow> Inl (add_str_error VNone)
      | Some code \<Rightarrow>
         (let file_name1 =
                (case file_name of
                   None \<Rightarrow> ''problem_iter'' @ str_nat (iteration st) @ ''_response''
                             @ str_nat response_id @ ''.txt''
                 | Some f \<Rightarrow> f @ ''.txt'');
              std_out_filepath = file_name1 @ ''_stdout.txt''
          in Inr [''stdout_filepath'' \<mapsto> VStr std_out_filepath,
                  ''code_path'' \<mapsto> VStr (''problem_iter'' @ str_nat (iteration st) @ ''_code''
                                           @ str_nat response_id @ ''.py''),
                  ''code'' \<mapsto> VStr code,
                  ''response_id'' \<mapsto> VInt (int response_id)]))"

fun responses_from ::
  "env \<Rightarrow> run_state \<Rightarrow> nat \<Rightarrow> string list \<Rightarrow> error + individual list" where
  "responses_from e st response_id [] = Inr []"
| "responses_from e st response_id (r # rs) =
     (case response_to_individual e st r response_id None of
        Inl err \<Rightarrow> Inl err
      | Inr individual \<Rightarrow>
         (case responses_from e st (Suc response_id) rs of
            Inl err \<Rightarrow> Inl err
          | Inr pop \<Rightarrow> Inr (individual # pop)))"

definition responses_to_population ::
  "env \<Rightarrow> run_state \<Rightarrow> string list \<Rightarrow> error + individual list" where
  "responses_to_population e st responses = responses_from e st 0 responses"

section \<open>Crossover and mutation\<close>

text \<open>
  The prompt of one pair. The keyword arguments of \<open>format\<close> are evaluated from left
  to right, then the template is filled, then \<open>self.system_prompt\<close> is read.
\<close>

definition crossover_messages ::
  "env \<Rightarrow> cfg \<Rightarrow> run_state \<Rightarrow> individual \<Rightarrow> individual \<Rightarrow> error + message list" where
  "crossover_messages e c st parent_1 parent_2 =
     bind_exc (lookup parent_1 ''code'') (\<lambda>code1.
     bind_exc (lookup parent_2 ''code'') (\<lambda>code2.
     bind_exc (lookup parent_1 ''description'') (\<lambda>description1.
     bind_exc (lookup parent_2 ''description'') (\<lambda>description2.
     bind_exc (format e (ga_crossover_prompt e)
                 [(''problem_description'', VStr (problem_description c)),
                  (''code1'', code1), (''code2'', code2),
                  (''description1'', description1), (''description2'', description2)])
       (\<lambda>crossover_prompt_user.
     bind_exc (read_attr ''system_prompt'' (system_prompt st)) (\<lambda>sp.
       Inr [(''system'', sp), (''user'', crossover_prompt_user)]))))))"

fun crossover_prompts ::
  "env \<Rightarrow> cfg \<Rightarrow> run_state \<Rightarrow> individual list \<Rightarrow> error + message list list" where
  "crossover_prompts e c st (parent_1 # parent_2 # rest) =
     (case crossover_messages e c st parent_1 parent_2 of
        Inl err \<Rightarrow> Inl err
      | Inr messages \<Rightarrow>
         (case crossover_prompts e c st rest of
            Inl err \<Rightarrow> Inl err
          | Inr messages_lst \<Rightarrow> Inr (messages # messages_lst)))"
| "crossover_prompts e c st [parent_1] = Inl (IndexError ''list index out of range'')"
| "crossover_prompts e c st [] = Inr []"

text \<open>\<open>responses_lst[i][0]\<close> turned into an individual, for each \<open>i\<close> in order.\<close>

fun crossed_from ::
  "env \<Rightarrow> run_state \<Rightarrow> nat \<Rightarrow> string list list \<Rightarrow> error + individual list" where
  "crossed_from e st response_id [] = Inr []"
| "crossed_from e st response_id (r # rs) =
     (case r of
        [] \<Rightarrow> Inl (IndexError ''list index out of range'')
      | first # _ \<Rightarrow>
         (case response_to_individual e st first response_id None of
            Inl err \<Rightarrow> Inl err
          | Inr individual \<Rightarrow>
             (case crossed_from e st (Suc response_id) rs of
                Inl err \<Rightarrow> Inl err
              | Inr pop \<Rightarrow> Inr (individual # pop))))"

text \<open>
  The model is asked twice in a generation; the first argument of
  \<open>multi_chat_completion\<close> numbers the calls: \<open>2 * iteration\<close> for crossover,
  \<open>2 * iteration + 1\<close> for mutation.
\<close>

definition crossover ::
  "env \<Rightarrow> cfg \<Rightarrow> run_state \<Rightarrow> individual list \<Rightarrow> error + individual list" where
  "crossover e c st pop =
     (if length pop \<noteq> pop_size c * 2 then Inl (AssertionError [])
      else
        bind_exc (crossover_prompts e c st pop) (\<lambda>messages_lst.
        bind_exc (crossed_from e st 0 (multi_chat_completion e (2 * iteration st) messages_lst))
          (\<lambda>crossed_population.
            if length crossed_population = pop_size c then Inr crossed_population
            else Inl (AssertionError []))))"

definition mutate_messages ::
  "env \<Rightarrow> cfg \<Rightarrow> run_state \<Rightarrow> individual \<Rightarrow> error + message list" where
  "mutate_messages e c st individual =
     bind_exc (lookup individual ''code'') (\<lambda>code.
     bind_exc (lookup individual ''description'') (\<lambda>description.
     bind_exc (format e (ga_mutate_prompt e)
                 [(''problem_description'', VStr (problem_description c)),
                  (''code'', code), (''description'', description)])
       (\<lambda>mutate_prompt.
     bind_exc (read_attr ''system_prompt'' (system_prompt st)) (\<lambda>sp.
       Inr [(''system'', sp), (''user'', mutate_prompt)]))))"

text \<open>The first loop of \<open>mutate\<close>: the prompts and the positions they belong to.\<close>

fun mutate_prompts ::
  "env \<Rightarrow> cfg \<Rightarrow> run_state \<Rightarrow> nat \<Rightarrow> individual list \<Rightarrow>
     error + (message list list \<times> nat list)" where
  "mutate_prompts e c st i [] = Inr ([], [])"
| "mutate_prompts e c st i (individual # rest) =
     (if uniform e (iteration st) i < mutation_rate c then
        (case mutate_messages e c st individual of
           Inl err \<Rightarrow> Inl err
         | Inr messages \<Rightarrow>
            (case mutate_prompts e c st (Suc i) rest of
               Inl err \<Rightarrow> Inl err
             | Inr (messages_lst, response_id_lst) \<Rightarrow>
                 Inr (messages # messages_lst, i # response_id_lst)))
      else mutate_prompts e c st (Suc i) rest)"

text \<open>The second loop: each response replaces the individual at its position.\<close>

fun apply_mutations ::
  "env \<Rightarrow> run_state \<Rightarrow> string list list \<Rightarrow> nat list \<Rightarrow> individual list \<Rightarrow>
     error + individual list" where
  "apply_mutations e st [] ids pop = Inr pop"
| "apply_mutations e st (r # rs) [] pop = Inl (IndexError ''list index out of range'')"
| "apply_mutations e st (r # rs) (response_id # ids) pop =
     (case r of
        [] \<Rightarrow> Inl (IndexError ''list index out of range'')
      | first # _ \<Rightarrow>
         (case response_to_individual e st first response_id None of
            Inl err \<Rightarrow> Inl err
          | Inr mutated_individual \<Rightarrow>
              apply_mutations e st rs ids (pop[response_id := mutated_individual])))"

definition mutate ::
  "env \<Rightarrow> cfg \<Rightarrow> run_state \<Rightarrow> individual list \<Rightarrow> error + individual list" where
  "mutate e c st pop =
     bind_exc (mutate_prompts e c st 0 pop) (\<lambda>(messages_lst, response_id_lst).
     bind_exc (apply_mutations e st
                 (multi_chat_completion e (2 * iteration st + 1) messages_lst)
                 response_id_lst pop)
       (\<lambda>pop'. if length pop' = pop_size c then Inr pop' else Inl (AssertionError [])))"

section \<open>The controller\<close>

definition init_population :: "env \<Rightarrow> cfg \<Rightarrow> run_state \<Rightarrow> error + run_state" where
  "init_population e c st =
     (let messages =
            [(''system'', generator_system_prompt e), (''user'', initial_user e),
             (''assistant'', seed_function e),
             (''user'', ''Improve over the above code. '' @ [CHR 0x0A] @ ''[code]:'' @ [CHR 0x0A])];
          responses = chat_completion e (pop_size c) messages
      in
      bind_exc (responses_to_population e st responses) (\<lambda>pop0.
      bind_exc (evaluate_population e st pop0) (\<lambda>(pop, st1).
      bind_exc (objs_of pop) (\<lambda>objs.
      bind_exc (py_min objs) (\<lambda>best_obj.
      bind_exc (np_argmin objs) (\<lambda>best_sample_idx.
      bind_exc (lookup (pop ! best_sample_idx) ''code'') (\<lambda>code.
      bind_exc (lookup (pop ! best_sample_idx) ''code_path'') (\<lambda>code_path.
        update_iter (st1\<lparr>best_obj_overall := best_obj,
                         best_code_overall := Some code,
                         best_code_path_overall := Some code_path,
                         population := pop\<rparr>)))))))))"

text \<open>\<open>G2A.__init__\<close>: the attributes it assigns, then the first population.\<close>

definition G2A_init :: "env \<Rightarrow> cfg \<Rightarrow> error + run_state" where
  "G2A_init e c =
     init_population e c
       \<lparr>iteration = 0, function_evals = 0, elitist = None, best_obj_overall = PInf,
        best_code_overall = None, best_desc_overall = None, best_code_path_overall = None,
        population = [], system_prompt = None, trace = []\<rparr>"

text \<open>
  One pass through the body of the \<open>while\<close> loop of \<open>evolve\<close>. The class has no
  method \<open>diversify\<close>, so calling it raises.
\<close>

definition generation :: "env \<Rightarrow> cfg \<Rightarrow> run_state \<Rightarrow> error + run_state" where
  "generation e c st =
     (if diversify c then Inl (AttributeError ''diversify'')
      else
        (let population_to_select =
               (case elitist st of None \<Rightarrow> population st | Some el \<Rightarrow> el # population st)
         in
         bind_exc (random_select e c st population_to_select) (\<lambda>selected_population.
         bind_exc (crossover e c st selected_population) (\<lambda>crossed_population.
         bind_exc (mutate e c st crossed_population) (\<lambda>mutated_population.
         bind_exc (evaluate_population e st mutated_population) (\<lambda>(pop, st1).
           update_iter (st1\<lparr>population := pop\<rparr>)))))))"

text \<open>The three values \<open>evolve\<close> returns; each read fails on an unassigned attribute.\<close>

definition evolve_result :: "run_state \<Rightarrow> error + (pyval \<times> pyval \<times> pyval)" where
  "evolve_result st =
     bind_exc (read_attr ''best_code_overall'' (best_code_overall st)) (\<lambda>code.
     bind_exc (read_attr ''best_desc_overall'' (best_desc_overall st)) (\<lambda>desc.
     bind_exc (read_attr ''best_code_path_overall'' (best_code_path_overall st)) (\<lambda>path.
       Inr (code, desc, path))))"

text \<open>
  \<open>evolve\<close>, with a bound on the number of loop tests: \<open>None\<close> means the bound was
  reached before the loop ended.
\<close>

fun evolve ::
  "nat \<Rightarrow> env \<Rightarrow> cfg \<Rightarrow> run_state \<Rightarrow> (error + (pyval \<times> pyval \<times> pyval)) option" where
  "evolve 0 e c st = None"
| "evolve (Suc fuel) e c st =
     (if int (function_evals st) < max_fe c then
        (case generation e c st of
           Inl err \<Rightarrow> Some (Inl err)
         | Inr st' \<Rightarrow> evolve fuel e c st')
      else Some (evolve_result st))"

section \<open>Auxiliary notions for the statements\<close>

text \<open>Python's \<open><=\<close> on floats.\<close>

definition fle :: "pyfloat \<Rightarrow> pyfloat \<Rightarrow> bool" where
  "fle a b = (a \<noteq> NaN \<and> b \<noteq> NaN \<and> \<not> flt b a)"

text \<open>An individual is submitted for execution unless its code is \<open>None\<close>.\<close>

definition submitted :: "individual \<Rightarrow> bool" where
  "submitted ind = (ind ''code'' \<noteq> Some VNone)"

text \<open>
  What the first loop of \<open>evaluate_population\<close> does with one individual: the entry
  it appends, the state it leaves, the process events it causes.
\<close>

definition launched_entry ::
  "env \<Rightarrow> run_state \<Rightarrow> nat \<Rightarrow> individual \<Rightarrow> individual \<times> proc option" where
  "launched_entry e st r ind =
     (if ind ''code'' = Some VNone then (mark_invalid_individual ind ''Invalid response!'', None)
      else (case run_code e st ind r of
              Inl ex \<Rightarrow> (mark_invalid_individual ind (str_exc ex), None)
            | Inr p \<Rightarrow> (ind, Some p)))"

definition launch_step :: "env \<Rightarrow> nat \<Rightarrow> individual \<Rightarrow> run_state \<Rightarrow> run_state" where
  "launch_step e r ind st =
     (if ind ''code'' = Some VNone then st
      else (case run_code e st ind r of
              Inl ex \<Rightarrow> st\<lparr>function_evals := function_evals st + 1\<rparr>
            | Inr p \<Rightarrow>
                st\<lparr>function_evals := function_evals st + 1, trace := trace st @ [Launched r]\<rparr>))"

definition launch_events :: "env \<Rightarrow> run_state \<Rightarrow> nat \<Rightarrow> individual \<Rightarrow> event list" where
  "launch_events e st r ind =
     (case snd (launched_entry e st r ind) of None \<Rightarrow> [] | Some p \<Rightarrow> [Launched r])"

text \<open>
  The stdout file of response \<open>i\<close> is read when its launch succeeded and its process
  finished in time. \<open>capture_readable_at\<close> says that this read, if it happens, gives
  a text; \<open>captures_readable\<close> says so for a whole batch.
\<close>

definition capture_readable_at :: "env \<Rightarrow> run_state \<Rightarrow> nat \<Rightarrow> individual \<Rightarrow> bool" where
  "capture_readable_at e st i ind =
     (case run_code e st ind i of
        Inl ex \<Rightarrow> True
      | Inr p \<Rightarrow>
          (if communicate p 20
           then (case capture e (iteration st) i of Inl err \<Rightarrow> False | Inr s \<Rightarrow> True)
           else True))"

definition captures_readable :: "env \<Rightarrow> run_state \<Rightarrow> individual list \<Rightarrow> bool" where
  "captures_readable e st pop = (\<forall>i < length pop. capture_readable_at e st i (pop ! i))"

text \<open>The text of a capture, empty where the read raises.\<close>

definition capture_text :: "env \<Rightarrow> nat \<Rightarrow> nat \<Rightarrow> string" where
  "capture_text e it r = (case capture e it r of Inl err \<Rightarrow> [] | Inr s \<Rightarrow> s)"

text \<open>What the second loop does with one entry whose capture is readable.\<close>

definition wait_one :: "env \<Rightarrow> nat \<Rightarrow> nat \<Rightarrow> individual \<times> proc option \<Rightarrow> individual" where
  "wait_one e it r x =
     (case snd x of
        None \<Rightarrow> fst x
      | Some p \<Rightarrow>
          if communicate p 20 then score e (fst x) (capture_text e it r)
          else mark_invalid_individual (fst x) (timeout_msg p))"

definition wait_events :: "nat \<Rightarrow> proc option \<Rightarrow> event list" where
  "wait_events r po =
     (case po of
        None \<Rightarrow> []
      | Some p \<Rightarrow> if communicate p 20 then [Waited r 20] else [Waited r 20, Killed r])"

definition evaluated :: "env \<Rightarrow> run_state \<Rightarrow> nat \<Rightarrow> individual \<Rightarrow> individual" where
  "evaluated e st r ind = wait_one e (iteration st) r (launched_entry e st r ind)"

definition process_events :: "env \<Rightarrow> run_state \<Rightarrow> individual list \<Rightarrow> event list" where
  "process_events e st pop =
     concat (map (\<lambda>(i, ind). launch_events e st i ind) (enumerate 0 pop)) @
     concat (map (\<lambda>(i, ind). wait_events i (snd (launched_entry e st i ind))) (enumerate 0 pop))"

text \<open>The response id an event is about.\<close>

fun event_id :: "event \<Rightarrow> nat" where
  "event_id (Launched i) = i"
| "event_id (Waited i t) = i"
| "event_id (Killed i) = i"

text \<open>The four fields every failure path writes.\<close>

definition marked_invalid :: "individual \<Rightarrow> string \<Rightarrow> bool" where
  "marked_invalid ind msg =
     (ind ''exec_success'' = Some (VBool False) \<and> ind ''obj'' = Some (VFloat PInf) \<and>
      ind ''fitness'' = Some (VInt 0) \<and> ind ''traceback_msg'' = Some (VStr msg))"

text \<open>
  A capture without traceback is malformed when it has fewer than two lines, when its
  second-to-last line is not a float, or when that float is not greater than 0.
\<close>

definition malformed :: "env \<Rightarrow> string \<Rightarrow> bool" where
  "malformed e stdout_str =
     (case second_to_last (split_nl stdout_str) of
        Inl _ \<Rightarrow> True
      | Inr line \<Rightarrow> (case py_float e line of Inl _ \<Rightarrow> True | Inr v \<Rightarrow> \<not> flt (Fin 0) v))"

definition scored_keys :: "string set" where
  "scored_keys = {''exec_success'', ''obj'', ''fitness'', ''traceback_msg''}"

text \<open>An objective as \<open>evaluate_population\<close> leaves it: a float that is a number.\<close>

definition valid_obj :: "individual \<Rightarrow> bool" where
  "valid_obj p = (case p ''obj'' of Some (VFloat v) \<Rightarrow> v \<noteq> NaN | _ \<Rightarrow> False)"

definition is_success :: "individual \<Rightarrow> bool" where
  "is_success p = (case p ''exec_success'' of None \<Rightarrow> False | Some v \<Rightarrow> truthy v)"

text \<open>An individual with code and without a description.\<close>

definition undescribed_individual :: "individual \<Rightarrow> bool" where
  "undescribed_individual p = (p ''code'' \<noteq> None \<and> p ''description'' = None)"

section \<open>Sample inputs\<close>

text \<open>
  Concrete inputs for the examples below. The environment starts every harness except
  for the code \<open>raise\<close>; the harness of the code \<open>hang\<close> never finishes, the
  others finish after 3 time units. Every capture can be read; the texts are keyed by
  response id. \<open>py_float\<close> agrees with Python's \<open>float\<close> on the three literals the
  captures use.
\<close>

definition finishing_proc :: proc where
  "finishing_proc =
     \<lparr>cmd = ''python -u eval.py'', remaining = Some 3, deadline_left = ''19.99''\<rparr>"

definition hanging_proc :: proc where
  "hanging_proc =
     \<lparr>cmd = ''python -u eval.py'', remaining = None, deadline_left = ''19.99''\<rparr>"

definition sample_capture :: "nat \<Rightarrow> string" where
  "sample_capture rid =
     (if rid = 0 then ''42.5'' @ [CHR 0x0A] @ ''DONE''
      else if rid = 4 then ''Traceback: ZeroDivisionError''
      else if rid = 5 then ''0'' @ [CHR 0x0A]
      else ''inf'' @ [CHR 0x0A])"

definition sample_individual :: "pyval \<Rightarrow> nat \<Rightarrow> individual" where
  "sample_individual code rid =
     [''stdout_filepath'' \<mapsto> VStr ''out.txt'', ''code_path'' \<mapsto> VStr ''code.py'',
      ''code'' \<mapsto> code, ''response_id'' \<mapsto> VInt (int rid)]"

definition sample_env :: env where
  "sample_env =
     \<lparr>spawn = (\<lambda>it rid code path.
         if code = ''raise'' then Inl (RaisedException ''cannot start'')
         else Inr (if code = ''hang'' then hanging_proc else finishing_proc)),
      capture = (\<lambda>it rid. Inr (sample_capture rid)),
      filter_traceback = (\<lambda>s. if take 9 s = ''Traceback'' then s else []),
      py_float = (\<lambda>s.
         if s = ''42.5'' then Inr (Fin 42.5)
         else if s = ''inf'' then Inr PInf
         else if s = ''0'' then Inr (Fin 0)
         else Inl (ValueError ''could not convert string to float'')),
      process_code = Some,
      format = (\<lambda>template args. Inr template),
      chat_completion = (\<lambda>n messages. replicate n ''def h(): pass''),
      multi_chat_completion = (\<lambda>k messages_lst. map (\<lambda>m. [''def h(): pass'']) messages_lst),
      choice_draw = (\<lambda>it k. (k, k)),
      uniform = (\<lambda>it i. 1 / 2),
      generator_system_prompt = ''system'',
      initial_user = ''user'',
      seed_function = ''seed'',
      ga_crossover_prompt = ''crossover'',
      ga_mutate_prompt = ''mutate''\<rparr>"



definition sample_state :: run_state where
  "sample_state =
     \<lparr>iteration = 0, function_evals = 0, elitist = None, best_obj_overall = PInf,
      best_code_overall = None, best_desc_overall = None, best_code_path_overall = None,
      population = [], system_prompt = None, trace = []\<rparr>"

definition sample_pop :: "individual list" where
  "sample_pop =
     [sample_individual (VStr ''ok'') 0, sample_individual VNone 1,
      sample_individual (VStr ''raise'') 2, sample_individual (VStr ''hang'') 3,
      sample_individual (VStr ''crash'') 4, sample_individual (VStr ''zero'') 5,
      sample_individual (VStr ''inf'') 6]"

text \<open>
  Two scored individuals and two states at a generation boundary: one as
  \<open>init_population\<close> leaves it before it calls \<open>update_iter\<close>, one whose best
  individual has a description.
\<close>

definition scored_a :: individual where
  "scored_a = (sample_individual (VStr ''ok'') 0)
     (''obj'' \<mapsto> VFloat (Fin 42.5), ''fitness'' \<mapsto> VFloat (Fin (1 / 42.5)),
      ''exec_success'' \<mapsto> VBool True)"

definition scored_b :: individual where
  "scored_b = mark_invalid_individual (sample_individual (VStr ''hang'') 1) ''timeout''"

definition boundary_state :: run_state where
  "boundary_state =
     sample_state\<lparr>population := [scored_b, scored_a], best_obj_overall := Fin 42.5,
                  best_code_overall := Some (VStr ''ok''),
                  best_code_path_overall := Some (VStr ''code.py'')\<rparr>"

definition described_state :: run_state where
  "described_state =
     sample_state\<lparr>population := [scored_b, scored_a(''description'' \<mapsto> VStr ''nearest neighbour'')],
                  best_code_path_overall := Some (VStr ''old.py'')\<rparr>"

definition described_update_result :: run_state where
  "described_update_result =
     described_state\<lparr>best_obj_overall := Fin 42.5, best_code_overall := Some (VStr ''ok''),
            best_desc_overall := Some (VStr ''nearest neighbour''),
            best_code_path_overall := Some (VStr ''code.py''),
            elitist := Some (scored_a(''description'' \<mapsto> VStr ''nearest neighbour'')),
            iteration := 1\<rparr>"

definition sample_cfg :: cfg where
  "sample_cfg =
     \<lparr>pop_size = 1, max_fe = 1, diversify = False, mutation_rate = 1 / 2,
      problem_description = ''tsp''\<rparr>"

text \<open>
  The individual that \<open>response_to_individual\<close> builds in iteration 0 for response 0,
  the same individual after a successful evaluation, and a state whose population holds
  only the latter while \<open>best_obj_overall\<close> is still infinite.
\<close>

definition fresh_individual :: individual where
  "fresh_individual =
     [''stdout_filepath'' \<mapsto> VStr ''problem_iter0_response0.txt_stdout.txt'',
      ''code_path'' \<mapsto> VStr ''problem_iter0_code0.py'',
      ''code'' \<mapsto> VStr ''def h(): pass'',
      ''response_id'' \<mapsto> VInt 0]"

definition fresh_scored :: individual where
  "fresh_scored = fresh_individual
     (''obj'' \<mapsto> VFloat (Fin 42.5), ''fitness'' \<mapsto> VFloat (Fin (1 / 42.5)),
      ''exec_success'' \<mapsto> VBool True)"

definition improving_state :: run_state where
  "improving_state = sample_state\<lparr>population := [fresh_scored]\<rparr>"

text \<open>The state of a \<open>G2A\<close> object built from the sample inputs.\<close>

definition init_state :: run_state where
  "init_state =
     \<lparr>iteration = 1, function_evals = 1, elitist = Some fresh_scored,
      best_obj_overall = Fin 42.5, best_code_overall = Some (VStr ''def h(): pass''),
      best_desc_overall = None,
      best_code_path_overall = Some (VStr ''problem_iter0_code0.py''),
      population = [fresh_scored], system_prompt = None,
      trace = [Launched 0, Waited 0 20]\<rparr>"

section \<open>The two loops of the evaluator in closed form\<close>

lemma run_code_iteration:
  "iteration st' = iteration st \<Longrightarrow> run_code e st' ind r = run_code e st ind r"
  by (simp add: run_code_def split: option.splits pyval.splits)

lemma launch_loop_Cons:
  assumes "p ''code'' \<noteq> None"
  shows "launch_loop e r (p # pop) st =
     (case launch_loop e (Suc r) pop (launch_step e r p st) of
        Inl err \<Rightarrow> Inl err
      | Inr (rs, st') \<Rightarrow> Inr (launched_entry e st r p # rs, st'))"
proof -
  from assms obtain c where c: "p ''code'' = Some c" by auto
  show ?thesis
  proof (cases "c = VNone")
    case True
    then show ?thesis using c
      by (simp add: launched_entry_def launch_step_def split: sum.splits prod.splits)
  next
    case False
    let ?st1 = "st\<lparr>function_evals := function_evals st + 1\<rparr>"
    have rc: "run_code e ?st1 p r = run_code e st p r" by (rule run_code_iteration) simp
    show ?thesis
    proof (cases "run_code e st p r")
      case (Inl ex)
      then show ?thesis using c False rc
        by (simp add: launched_entry_def launch_step_def Let_def split: sum.splits prod.splits)
    next
      case (Inr pr)
      then show ?thesis using c False rc
        by (simp add: launched_entry_def launch_step_def Let_def split: sum.splits prod.splits)
    qed
  qed
qed

lemma launched_entry_iteration:
  "iteration st' = iteration st \<Longrightarrow> launched_entry e st' r ind = launched_entry e st r ind"
  by (simp add: launched_entry_def run_code_iteration[of st' st])

lemma launch_events_iteration:
  "iteration st' = iteration st \<Longrightarrow> launch_events e st' r ind = launch_events e st r ind"
  by (simp add: launch_events_def launched_entry_iteration[of st' st])

lemma launch_step_iteration: "iteration (launch_step e r p st) = iteration st"
  by (simp add: launch_step_def split: sum.splits)

lemma launch_step_eq:
  "launch_step e r p st =
     st\<lparr>function_evals := function_evals st + (if submitted p then 1 else 0),
        trace := trace st @ launch_events e st r p\<rparr>"
  by (simp add: launch_step_def launch_events_def launched_entry_def submitted_def
           split: sum.splits)

lemma launch_loop_closed:
  "\<forall>p \<in> set pop. p ''code'' \<noteq> None \<Longrightarrow>
   launch_loop e r pop st =
     Inr (map (\<lambda>(i, ind). launched_entry e st i ind) (enumerate r pop),
          st\<lparr>function_evals := function_evals st + length (filter submitted pop),
             trace := trace st @
               concat (map (\<lambda>(i, ind). launch_events e st i ind) (enumerate r pop))\<rparr>)"
proof (induction pop arbitrary: r st)
  case Nil
  then show ?case by simp
next
  case (Cons p pop)
  let ?st1 = "launch_step e r p st"
  have it: "iteration ?st1 = iteration st" by (rule launch_step_iteration)
  have IH: "launch_loop e (Suc r) pop ?st1 =
     Inr (map (\<lambda>(i, ind). launched_entry e ?st1 i ind) (enumerate (Suc r) pop),
          ?st1\<lparr>function_evals := function_evals ?st1 + length (filter submitted pop),
             trace := trace ?st1 @
               concat (map (\<lambda>(i, ind). launch_events e ?st1 i ind) (enumerate (Suc r) pop))\<rparr>)"
    using Cons by simp
  have e1: "(\<lambda>(i, ind). launched_entry e ?st1 i ind) = (\<lambda>(i, ind). launched_entry e st i ind)"
    using launched_entry_iteration[OF it] by auto
  have e2: "(\<lambda>(i, ind). launch_events e ?st1 i ind) = (\<lambda>(i, ind). launch_events e st i ind)"
    using launch_events_iteration[OF it] by auto
  have p: "p ''code'' \<noteq> None" using Cons.prems by simp
  show ?case
    unfolding launch_loop_Cons[where p=p, OF p] IH e1 e2
    by (simp add: launch_step_eq)
qed

lemma wait_loop_closed:
  assumes "\<forall>x \<in> set rs. snd x \<noteq> None \<longrightarrow> fst x ''stdout_filepath'' \<noteq> None"
    and "\<forall>j < length rs. \<forall>p. snd (rs ! j) = Some p \<and> communicate p 20 \<longrightarrow>
           (\<exists>s. capture e it (r + j) = Inr s)"
  shows "wait_loop e it r rs tr =
     Inr (map (\<lambda>(i, x). wait_one e it i x) (enumerate r rs),
          tr @ concat (map (\<lambda>(i, x). wait_events i (snd x)) (enumerate r rs)))"
  using assms
proof (induction rs arbitrary: r tr)
  case Nil
  then show ?case by simp
next
  case (Cons x rs)
  obtain ind po where x: "x = (ind, po)" by (cases x)
  have p1: "\<forall>x \<in> set rs. snd x \<noteq> None \<longrightarrow> fst x ''stdout_filepath'' \<noteq> None"
    using Cons.prems(1) by simp
  have p2: "\<forall>j < length rs. \<forall>p. snd (rs ! j) = Some p \<and> communicate p 20 \<longrightarrow>
           (\<exists>s. capture e it (Suc r + j) = Inr s)"
  proof (intro allI impI)
    fix j p
    assume j: "j < length rs" and a: "snd (rs ! j) = Some p \<and> communicate p 20"
    have "Suc j < length (x # rs)" using j by simp
    moreover have "snd ((x # rs) ! Suc j) = Some p \<and> communicate p 20" using a by simp
    ultimately have "\<exists>s. capture e it (r + Suc j) = Inr s" using Cons.prems(2) by blast
    then show "\<exists>s. capture e it (Suc r + j) = Inr s" by simp
  qed
  have IH: "\<And>tr. wait_loop e it (Suc r) rs tr =
     Inr (map (\<lambda>(i, x). wait_one e it i x) (enumerate (Suc r) rs),
          tr @ concat (map (\<lambda>(i, x). wait_events i (snd x)) (enumerate (Suc r) rs)))"
    using Cons.IH[OF p1 p2] .
  show ?case
  proof (cases po)
    case None
    then show ?thesis using x IH by (simp add: wait_one_def wait_events_def)
  next
    case (Some p)
    then have "ind ''stdout_filepath'' \<noteq> None" using Cons.prems(1) x by simp
    then obtain path where path: "ind ''stdout_filepath'' = Some path" by auto
    show ?thesis
    proof (cases "communicate p 20")
      case True
      have "snd ((x # rs) ! 0) = Some p \<and> communicate p 20" using x Some True by simp
      then have "\<exists>s. capture e it (r + 0) = Inr s"
        using Cons.prems(2) by (metis length_greater_0_conv list.discI)
      then obtain s where s: "capture e it r = Inr s" by auto
      show ?thesis using x Some True path IH s
        by (simp add: wait_one_def wait_events_def capture_text_def)
    next
      case False
      then show ?thesis using x Some path IH by (simp add: wait_one_def wait_events_def)
    qed
  qed
qed

lemma wait_loop_Cons_Inr:
  assumes "wait_loop e it r (x # rs) tr = Inr y"
  shows "\<exists>tr1 y1. wait_loop e it (Suc r) rs tr1 = Inr y1"
    and "\<And>p. snd x = Some p \<Longrightarrow> communicate p 20 \<Longrightarrow> \<exists>s. capture e it r = Inr s"
proof -
  obtain ind po where x: "x = (ind, po)" by (cases x)
  show "\<exists>tr1 y1. wait_loop e it (Suc r) rs tr1 = Inr y1"
  proof (cases po)
    case None
    then show ?thesis using assms x by (auto split: sum.splits)
  next
    case (Some p)
    show ?thesis
    proof (cases "communicate p 20")
      case True
      then show ?thesis using assms x Some by (auto split: option.splits sum.splits)
    next
      case False
      then show ?thesis using assms x Some by (auto split: sum.splits)
    qed
  qed
  show "\<exists>s. capture e it r = Inr s" if "snd x = Some p" "communicate p 20" for p
    using assms x that by (auto split: option.splits sum.splits)
qed

lemma wait_loop_Inr_readable:
  "wait_loop e it r rs tr = Inr y \<Longrightarrow> j < length rs \<Longrightarrow> snd (rs ! j) = Some p \<Longrightarrow>
   communicate p 20 \<Longrightarrow> \<exists>s. capture e it (r + j) = Inr s"
proof (induction rs arbitrary: r tr y j)
  case Nil
  then show ?case by simp
next
  case (Cons x rs)
  show ?case
  proof (cases j)
    case 0
    then show ?thesis using wait_loop_Cons_Inr(2)[OF Cons.prems(1), of p] Cons.prems(3,4) by simp
  next
    case (Suc k)
    from wait_loop_Cons_Inr(1)[OF Cons.prems(1)] obtain tr1 y1 where
      rec: "wait_loop e it (Suc r) rs tr1 = Inr y1" by blast
    have k: "k < length rs" using Cons.prems(2) Suc by simp
    have sk: "snd (rs ! k) = Some p" using Cons.prems(3) Suc by simp
    from Cons.IH[OF rec k sk Cons.prems(4)] show ?thesis using Suc by simp
  qed
qed


lemma run_code_stdout: "run_code e st ind r = Inr p \<Longrightarrow> ind ''stdout_filepath'' \<noteq> None"
  by (auto simp: run_code_def split: option.splits pyval.splits)

lemma launched_entry_stdout:
  "snd (launched_entry e st r ind) \<noteq> None \<Longrightarrow>
   fst (launched_entry e st r ind) ''stdout_filepath'' \<noteq> None"
  by (auto simp: launched_entry_def dest: run_code_stdout split: if_splits sum.splits)

lemma launched_entry_Some:
  "snd (launched_entry e st r ind) = Some p \<Longrightarrow> run_code e st ind r = Inr p"
  by (auto simp: launched_entry_def split: if_splits sum.splits)

lemma run_code_Inr_code: "run_code e st ind r = Inr p \<Longrightarrow> ind ''code'' \<noteq> Some VNone"
  by (auto simp: run_code_def split: option.splits pyval.splits)

lemma capture_readable_atD:
  "capture_readable_at e st i ind \<Longrightarrow> run_code e st ind i = Inr p \<Longrightarrow> communicate p 20 \<Longrightarrow>
   \<exists>s. capture e (iteration st) i = Inr s"
  by (auto simp: capture_readable_at_def split: sum.splits)

lemma launched_entries_nth:
  "j < length pop \<Longrightarrow>
   map (\<lambda>(i, ind). launched_entry e st i ind) (enumerate 0 pop) ! j =
     launched_entry e st j (pop ! j)"
  by (simp add: nth_enumerate_eq)

lemma evaluate_population_closed:
  assumes "\<forall>p \<in> set pop. p ''code'' \<noteq> None" and rd: "captures_readable e st pop"
  shows "evaluate_population e st pop =
     Inr (map (\<lambda>(i, ind). evaluated e st i ind) (enumerate 0 pop),
          st\<lparr>function_evals := function_evals st + length (filter submitted pop),
             trace := trace st @ process_events e st pop\<rparr>)"
proof -
  let ?rs = "map (\<lambda>(i, ind). launched_entry e st i ind) (enumerate 0 pop)"
  have ok: "\<forall>x \<in> set ?rs. snd x \<noteq> None \<longrightarrow> fst x ''stdout_filepath'' \<noteq> None"
    using launched_entry_stdout by auto
  have ok2: "\<forall>j < length ?rs. \<forall>p. snd (?rs ! j) = Some p \<and> communicate p 20 \<longrightarrow>
           (\<exists>s. capture e (iteration st) (0 + j) = Inr s)"
  proof (intro allI impI)
    fix j p
    assume j: "j < length ?rs" and a: "snd (?rs ! j) = Some p \<and> communicate p 20"
    have jl: "j < length pop" using j by simp
    have "snd (launched_entry e st j (pop ! j)) = Some p"
      using a launched_entries_nth[OF jl, of e st] by simp
    then have rc: "run_code e st (pop ! j) j = Inr p" by (rule launched_entry_Some)
    have "capture_readable_at e st j (pop ! j)" using rd jl by (simp add: captures_readable_def)
    from capture_readable_atD[OF this rc] a show "\<exists>s. capture e (iteration st) (0 + j) = Inr s"
      by simp
  qed
  have en: "enumerate 0 ?rs = map (\<lambda>(i, ind). (i, launched_entry e st i ind)) (enumerate 0 pop)"
    by (rule nth_equalityI) (simp_all add: nth_enumerate_eq)
  have m1: "map (\<lambda>(i, x). wait_one e (iteration st) i x) (enumerate 0 ?rs) =
            map (\<lambda>(i, ind). evaluated e st i ind) (enumerate 0 pop)"
    unfolding en by (simp add: evaluated_def case_prod_unfold comp_def)
  have m2: "map (\<lambda>(i, x). wait_events i (snd x)) (enumerate 0 ?rs) =
            map (\<lambda>(i, ind). wait_events i (snd (launched_entry e st i ind))) (enumerate 0 pop)"
    unfolding en by (simp add: case_prod_unfold comp_def)
  have w: "wait_loop e (iteration st) 0 ?rs tr =
     Inr (map (\<lambda>(i, ind). evaluated e st i ind) (enumerate 0 pop),
          tr @ concat (map (\<lambda>(i, ind). wait_events i (snd (launched_entry e st i ind)))
                         (enumerate 0 pop)))" for tr
    unfolding wait_loop_closed[OF ok ok2] m1 m2 ..
  show ?thesis
    unfolding evaluate_population_def launch_loop_closed[OF assms(1)]
    by (simp add: w process_events_def)
qed



section \<open>What the evaluator does with one individual\<close>

lemma mark_invalid_marked: "marked_invalid (mark_invalid_individual ind m) m"
  by (simp add: marked_invalid_def mark_invalid_individual_def)

lemma mark_invalid_frame:
  "k \<notin> scored_keys \<Longrightarrow> mark_invalid_individual ind m k = ind k"
  by (simp add: mark_invalid_individual_def scored_keys_def)

lemma mark_invalid_obj_marked:
  "marked_invalid (mark_invalid_individual (ind(''obj'' \<mapsto> x)) m) m"
  by (simp add: marked_invalid_def mark_invalid_individual_def)

lemma one_over_positive: "flt (Fin 0) v \<Longrightarrow> \<exists>f. one_over v = Inr f"
  by (cases v) auto

lemma score_traceback:
  "filter_traceback e s \<noteq> [] \<Longrightarrow> score e ind s = mark_invalid_individual ind (filter_traceback e s)"
  by (simp add: score_def)

lemma score_malformed:
  assumes "filter_traceback e s = []" "malformed e s"
  shows "marked_invalid (score e ind s) invalid_output_msg"
proof (cases "second_to_last (split_nl s)")
  case (Inl a)
  then show ?thesis using assms by (simp add: score_def mark_invalid_marked)
next
  case (Inr line)
  show ?thesis
  proof (cases "py_float e line")
    case (Inl a)
    then show ?thesis using assms Inr by (simp add: score_def mark_invalid_marked)
  next
    case v: (Inr v)
    then have "\<not> flt (Fin 0) v" using assms Inr by (simp add: malformed_def)
    then show ?thesis using assms Inr v
      by (simp add: score_def Let_def mark_invalid_obj_marked)
  qed
qed

lemma score_success:
  assumes "filter_traceback e s = []" "\<not> malformed e s"
  shows "\<exists>line v f. second_to_last (split_nl s) = Inr line \<and> py_float e line = Inr v \<and>
           flt (Fin 0) v \<and> one_over v = Inr f \<and>
           score e ind s = ind(''obj'' \<mapsto> VFloat v, ''fitness'' \<mapsto> VFloat f,
                               ''exec_success'' \<mapsto> VBool True)"
proof -
  from assms(2) obtain line v where l: "second_to_last (split_nl s) = Inr line"
    and v: "py_float e line = Inr v" and pos: "flt (Fin 0) v"
    by (auto simp: malformed_def split: sum.splits)
  from one_over_positive[OF pos] obtain f where f: "one_over v = Inr f" ..
  show ?thesis using assms(1) l v pos f by (simp add: score_def Let_def)
qed

lemma score_frame: "k \<notin> scored_keys \<Longrightarrow> score e ind s k = ind k"
proof (cases "filter_traceback e s = []")
  case False
  assume "k \<notin> scored_keys"
  then show ?thesis using False by (simp add: score_traceback mark_invalid_frame)
next
  case True
  assume k: "k \<notin> scored_keys"
  show ?thesis
  proof (cases "malformed e s")
    case False
    from score_success[OF True False, of ind] k show ?thesis
      by (auto simp: scored_keys_def)
  next
    case m: True
    from k show ?thesis using True
      by (auto simp: score_def Let_def mark_invalid_individual_def scored_keys_def
               split: sum.splits)
  qed
qed

lemma evaluated_null:
  "ind ''code'' = Some VNone \<Longrightarrow>
   evaluated e st r ind = mark_invalid_individual ind ''Invalid response!''"
  by (simp add: evaluated_def launched_entry_def wait_one_def)

lemma evaluated_launch_failed:
  "ind ''code'' \<noteq> Some VNone \<Longrightarrow> run_code e st ind r = Inl ex \<Longrightarrow>
   evaluated e st r ind = mark_invalid_individual ind (str_exc ex)"
  by (simp add: evaluated_def launched_entry_def wait_one_def)

lemma evaluated_timeout:
  "ind ''code'' \<noteq> Some VNone \<Longrightarrow> run_code e st ind r = Inr p \<Longrightarrow> \<not> communicate p 20 \<Longrightarrow>
   evaluated e st r ind = mark_invalid_individual ind (timeout_msg p)"
  by (simp add: evaluated_def launched_entry_def wait_one_def)

lemma evaluated_finished:
  "ind ''code'' \<noteq> Some VNone \<Longrightarrow> run_code e st ind r = Inr p \<Longrightarrow> communicate p 20 \<Longrightarrow>
   evaluated e st r ind = score e ind (capture_text e (iteration st) r)"
  by (simp add: evaluated_def launched_entry_def wait_one_def)

lemma evaluated_read:
  "ind ''code'' \<noteq> Some VNone \<Longrightarrow> run_code e st ind r = Inr p \<Longrightarrow> communicate p 20 \<Longrightarrow>
   capture e (iteration st) r = Inr s \<Longrightarrow> evaluated e st r ind = score e ind s"
  by (simp add: evaluated_def launched_entry_def wait_one_def capture_text_def)

lemma evaluated_cases:
  obtains (invalid) m where "evaluated e st r ind = mark_invalid_individual ind m"
  | (scored) p where "ind ''code'' \<noteq> Some VNone" "run_code e st ind r = Inr p" "communicate p 20"
       "evaluated e st r ind = score e ind (capture_text e (iteration st) r)"
proof (cases "ind ''code'' = Some VNone")
  case True
  then show ?thesis using invalid evaluated_null by blast
next
  case False
  show ?thesis
  proof (cases "run_code e st ind r")
    case (Inl ex)
    then show ?thesis using invalid False evaluated_launch_failed by blast
  next
    case (Inr p)
    show ?thesis
    proof (cases "communicate p 20")
      case True
      then show ?thesis using scored False Inr evaluated_finished by blast
    next
      case f: False
      then show ?thesis using invalid False Inr evaluated_timeout by blast
    qed
  qed
qed

lemma evaluated_frame: "k \<notin> scored_keys \<Longrightarrow> evaluated e st r ind k = ind k"
  by (cases rule: evaluated_cases[of e st r ind]) (simp_all add: mark_invalid_frame score_frame)

text \<open>Either the four failure fields, or a positive objective with its reciprocal.\<close>

lemma score_outcome:
  "(\<exists>m. marked_invalid (score e ind s) m) \<or>
   (\<exists>v f. flt (Fin 0) v \<and> one_over v = Inr f \<and>
      score e ind s = ind(''obj'' \<mapsto> VFloat v, ''fitness'' \<mapsto> VFloat f,
                          ''exec_success'' \<mapsto> VBool True))"
proof (cases "filter_traceback e s = []")
  case False
  then show ?thesis using score_traceback mark_invalid_marked by metis
next
  case True
  show ?thesis
  proof (cases "malformed e s")
    case m: True
    then show ?thesis using score_malformed[OF True m] by blast
  next
    case False
    then show ?thesis using score_success[OF True False, of ind] by blast
  qed
qed

lemma evaluated_outcome:
  "(\<exists>m. marked_invalid (evaluated e st r ind) m) \<or>
   (\<exists>v f. flt (Fin 0) v \<and> one_over v = Inr f \<and>
      evaluated e st r ind = ind(''obj'' \<mapsto> VFloat v, ''fitness'' \<mapsto> VFloat f,
                                 ''exec_success'' \<mapsto> VBool True))"
proof (cases rule: evaluated_cases[of e st r ind])
  case (invalid m)
  then show ?thesis using mark_invalid_marked by metis
next
  case (scored p)
  then show ?thesis using score_outcome[of e ind "capture_text e (iteration st) r"] by simp
qed

lemma evaluate_population_nth:
  assumes "\<forall>p \<in> set pop. p ''code'' \<noteq> None" and "captures_readable e st pop"
  shows "\<exists>pop' st'. evaluate_population e st pop = Inr (pop', st') \<and>
           length pop' = length pop \<and>
           (\<forall>i < length pop. pop' ! i = evaluated e st i (pop ! i)) \<and>
           function_evals st' = function_evals st + length (filter submitted pop) \<and>
           trace st' = trace st @ process_events e st pop \<and>
           iteration st' = iteration st"
  unfolding evaluate_population_closed[OF assms]
  by (simp add: nth_enumerate_eq)

lemma marked_invalid_fields:
  "marked_invalid ind m \<Longrightarrow>
     (\<exists>v. ind ''obj'' = Some (VFloat v) \<and> v \<noteq> NaN \<and> flt (Fin 0) v) \<and> ind ''fitness'' \<noteq> None \<and>
     ind ''exec_success'' = Some (VBool False)"
  by (simp add: marked_invalid_def)

lemma evaluated_fields:
  "(\<exists>v. evaluated e st r ind ''obj'' = Some (VFloat v) \<and> v \<noteq> NaN \<and> flt (Fin 0) v) \<and>
   evaluated e st r ind ''fitness'' \<noteq> None \<and>
   (\<exists>b. evaluated e st r ind ''exec_success'' = Some (VBool b))"
proof -
  from evaluated_outcome[of e st r ind] show ?thesis
  proof
    assume "\<exists>m. marked_invalid (evaluated e st r ind) m"
    then show ?thesis using marked_invalid_fields by blast
  next
    assume "\<exists>v f. flt (Fin 0) v \<and> one_over v = Inr f \<and>
      evaluated e st r ind = ind(''obj'' \<mapsto> VFloat v, ''fitness'' \<mapsto> VFloat f,
                                 ''exec_success'' \<mapsto> VBool True)"
    then obtain v f where pos: "flt (Fin 0) v" and
      eq: "evaluated e st r ind = ind(''obj'' \<mapsto> VFloat v, ''fitness'' \<mapsto> VFloat f,
                                 ''exec_success'' \<mapsto> VBool True)" by blast
    have "v \<noteq> NaN" using pos by (cases v) auto
    then show ?thesis using pos unfolding eq by auto
  qed
qed

lemma filter_submitted_less:
  assumes "i < length pop" "\<not> submitted (pop ! i)"
  shows "length (filter submitted pop) \<le> length pop - 1"
proof -
  have "pop ! i \<in> set pop" using assms(1) by simp
  then have "length (filter submitted pop) < length pop"
    using assms(2) length_filter_less[of "pop ! i" pop submitted] by simp
  then show ?thesis by simp
qed

lemma null_no_events:
  assumes "ind ''code'' = Some VNone"
  shows "launch_events e st i ind = []" "wait_events i (snd (launched_entry e st i ind)) = []"
  using assms by (simp_all add: launch_events_def launched_entry_def wait_events_def)

lemma marked_invalid_not_success:
  "marked_invalid ind m \<Longrightarrow> ind ''exec_success'' \<noteq> Some (VBool True) \<and> ind ''traceback_msg'' \<noteq> None"
  by (simp add: marked_invalid_def)

section \<open>Process events of one individual\<close>

lemma filter_concat_enumerate:
  assumes "\<And>j x ev. ev \<in> set (g j x) \<Longrightarrow> event_id ev = j"
  shows "filter (\<lambda>ev. event_id ev = i) (concat (map (\<lambda>(j, x). g j x) (enumerate r xs))) =
           (if r \<le> i \<and> i < r + length xs then g i (xs ! (i - r)) else [])"
proof (induction xs arbitrary: r)
  case Nil
  then show ?case by auto
next
  case (Cons x xs)
  have hd: "filter (\<lambda>ev. event_id ev = i) (g r x) = (if i = r then g r x else [])"
    using assms[of _ r x] by (auto simp: filter_empty_conv filter_id_conv)
  show ?case
  proof (cases "i = r")
    case True
    then show ?thesis using Cons[of "Suc r"] hd by simp
  next
    case False
    have "i - Suc r = n" if "i - r = Suc n" for n using that by arith
    then show ?thesis using False Cons[of "Suc r"] hd
      by (cases "i - r") auto
  qed
qed

lemma launch_events_id: "ev \<in> set (launch_events e st j x) \<Longrightarrow> event_id ev = j"
  by (auto simp: launch_events_def split: option.splits)

lemma wait_events_id: "ev \<in> set (wait_events j po) \<Longrightarrow> event_id ev = j"
  by (auto simp: wait_events_def split: option.splits if_splits)

lemma process_events_about:
  assumes "i < length pop"
  shows "filter (\<lambda>ev. event_id ev = i) (process_events e st pop) =
           launch_events e st i (pop ! i) @ wait_events i (snd (launched_entry e st i (pop ! i)))"
proof -
  have a: "filter (\<lambda>ev. event_id ev = i)
             (concat (map (\<lambda>(j, x). launch_events e st j x) (enumerate 0 pop))) =
           launch_events e st i (pop ! i)"
    using filter_concat_enumerate[of "launch_events e st" i 0 pop] launch_events_id assms
    by simp
  have b: "filter (\<lambda>ev. event_id ev = i)
             (concat (map (\<lambda>(j, x). wait_events j (snd (launched_entry e st j x))) (enumerate 0 pop))) =
           wait_events i (snd (launched_entry e st i (pop ! i)))"
    using filter_concat_enumerate[of "\<lambda>j x. wait_events j (snd (launched_entry e st j x))" i 0 pop]
      wait_events_id assms
    by simp
  show ?thesis unfolding process_events_def filter_append a b ..
qed



section \<open>Facts about the sample inputs\<close>

lemma sample_pop_code: "\<forall>p \<in> set sample_pop. p ''code'' \<noteq> None"
  by (simp add: sample_pop_def sample_individual_def)


lemma sample_captures_readable: "captures_readable sample_env st pop"
  by (simp add: captures_readable_def capture_readable_at_def sample_env_def split: sum.splits)

lemma communicate_finishing: "communicate finishing_proc 20"
  by (simp add: communicate_def finishing_proc_def)


lemma sample_capture_Inr: "capture sample_env it r = Inr (sample_capture r)"
  by (simp add: sample_env_def)


lemma sample_run_code_inf:
  "run_code sample_env sample_state (sample_pop ! 6) 6 =
     Inr finishing_proc"
  by (simp add: run_code_def sample_pop_def sample_individual_def sample_env_def)

lemma sample_score_inf:
  "score sample_env ind (sample_capture 6) =
     ind(''obj'' \<mapsto> VFloat PInf, ''fitness'' \<mapsto> VFloat (Fin 0), ''exec_success'' \<mapsto> VBool True)"
  by (simp add: score_def sample_env_def sample_capture_def second_to_last_def Let_def)

lemma sample_evaluated_inf:
  "evaluated sample_env sample_state 6 (sample_pop ! 6) =
     (sample_pop ! 6)(''obj'' \<mapsto> VFloat PInf, ''fitness'' \<mapsto> VFloat (Fin 0),
                      ''exec_success'' \<mapsto> VBool True)"
proof -
  have n: "(sample_pop ! 6) ''code'' \<noteq> Some VNone"
    by (simp add: sample_pop_def sample_individual_def)
  show ?thesis
    unfolding evaluated_read[where ind="sample_pop ! 6", OF n sample_run_code_inf
                communicate_finishing sample_capture_Inr]
    by (rule sample_score_inf)
qed








section \<open>Minimum, argmin and the bookkeeping step\<close>

lemma bind_exc_Inr: "bind_exc m f = Inr y \<longleftrightarrow> (\<exists>x. m = Inr x \<and> f x = Inr y)"
  by (cases m) auto

lemma bind_exc_Inl: "bind_exc m f = Inl err \<longleftrightarrow> (m = Inl err \<or> (\<exists>x. m = Inr x \<and> f x = Inl err))"
  by (cases m) auto

lemma flt_trans: "flt a b \<Longrightarrow> flt b c \<Longrightarrow> flt a c"
  by (cases a; cases b; cases c) auto

lemma fle_flt_trans: "a \<noteq> NaN \<Longrightarrow> b \<noteq> NaN \<Longrightarrow> \<not> flt b a \<Longrightarrow> flt b c \<Longrightarrow> flt a c"
  by (cases a; cases b; cases c) auto

lemma flt_irrefl: "\<not> flt a a"
  by (cases a) auto

lemma flt_not_NaN: "flt a b \<Longrightarrow> a \<noteq> NaN \<and> b \<noteq> NaN"
  by (cases a; cases b) auto

lemma min_scan_mem: "min_scan m ys \<in> set (m # ys)"
  by (induction ys arbitrary: m) auto

lemma min_scan_least:
  "NaN \<notin> set (m # ys) \<Longrightarrow> y \<in> set (m # ys) \<Longrightarrow> \<not> flt y (min_scan m ys)"
proof (induction ys arbitrary: m y)
  case Nil
  then show ?case by (simp add: flt_irrefl)
next
  case (Cons z ys)
  let ?m' = "if flt z m then z else m"
  have nn: "NaN \<notin> set (?m' # ys)" using Cons.prems(1) by auto
  have base: "\<not> flt ?m' (min_scan ?m' ys)" using Cons.IH[OF nn, of ?m'] by simp
  have mN: "m \<noteq> NaN" and zN: "z \<noteq> NaN" using Cons.prems(1) by auto
  have m: "\<not> flt m (min_scan ?m' ys)"
  proof (cases "flt z m")
    case True
    show ?thesis
    proof
      assume "flt m (min_scan ?m' ys)"
      then have "flt z (min_scan ?m' ys)" using True flt_trans by blast
      then show False using base True by simp
    qed
  next
    case False
    then show ?thesis using base by simp
  qed
  have z: "\<not> flt z (min_scan ?m' ys)"
  proof (cases "flt z m")
    case True
    then show ?thesis using base by simp
  next
    case False
    show ?thesis
    proof
      assume "flt z (min_scan ?m' ys)"
      then have "flt m (min_scan ?m' ys)" using fle_flt_trans[OF mN zN False] by blast
      then show False using m by simp
    qed
  qed
  from Cons.prems(2) consider "y = m" | "y = z" | "y \<in> set ys" by auto
  then show ?case
  proof cases
    case 1
    then show ?thesis using m by simp
  next
    case 2
    then show ?thesis using z by simp
  next
    case 3
    then show ?thesis using Cons.IH[OF nn, of y] by simp
  qed
qed

lemma nth_Cons_diff: "Suc i \<le> r \<Longrightarrow> (y # ys) ! (r - i) = ys ! (r - Suc i)"
proof -
  assume "Suc i \<le> r"
  then have "r - i = Suc (r - Suc i)" by arith
  then show ?thesis by simp
qed

lemma argmin_scan_position:
  "NaN \<notin> set (mp # ys) \<Longrightarrow>
   (argmin_scan mp mi i ys = mi \<and> min_scan mp ys = mp) \<or>
   (i \<le> argmin_scan mp mi i ys \<and> argmin_scan mp mi i ys < i + length ys \<and>
    ys ! (argmin_scan mp mi i ys - i) = min_scan mp ys)"
proof (induction ys arbitrary: mp mi i)
  case Nil
  then show ?case by simp
next
  case (Cons y ys)
  have mpN: "mp \<noteq> NaN" and yN: "y \<noteq> NaN" using Cons.prems by auto
  show ?case
  proof (cases "flt y mp")
    case True
    have nn: "NaN \<notin> set (y # ys)" using Cons.prems by auto
    let ?r = "argmin_scan y i (Suc i) ys"
    have eq: "argmin_scan mp mi i (y # ys) = ?r" "min_scan mp (y # ys) = min_scan y ys"
      using True mpN by simp_all
    from Cons.IH[OF nn, of i "Suc i"] show ?thesis
    proof
      assume "?r = i \<and> min_scan y ys = y"
      then show ?thesis unfolding eq by simp
    next
      assume a: "Suc i \<le> ?r \<and> ?r < Suc i + length ys \<and> ys ! (?r - Suc i) = min_scan y ys"
      then have "(y # ys) ! (?r - i) = ys ! (?r - Suc i)"
        by (simp add: nth_Cons_diff)
      then show ?thesis unfolding eq using a by auto
    qed
  next
    case False
    have nn: "NaN \<notin> set (mp # ys)" using Cons.prems by auto
    let ?r = "argmin_scan mp mi (Suc i) ys"
    have eq: "argmin_scan mp mi i (y # ys) = ?r" "min_scan mp (y # ys) = min_scan mp ys"
      using False mpN yN by simp_all
    from Cons.IH[OF nn, of mi "Suc i"] show ?thesis
    proof
      assume "?r = mi \<and> min_scan mp ys = mp"
      then show ?thesis unfolding eq by simp
    next
      assume a: "Suc i \<le> ?r \<and> ?r < Suc i + length ys \<and> ys ! (?r - Suc i) = min_scan mp ys"
      then have "(y # ys) ! (?r - i) = ys ! (?r - Suc i)"
        by (simp add: nth_Cons_diff)
      then show ?thesis unfolding eq using a by auto
    qed
  qed
qed

lemma argmin_is_min:
  assumes "NaN \<notin> set xs" "py_min xs = Inr b" "np_argmin xs = Inr idx"
  shows "idx < length xs \<and> xs ! idx = b"
proof (cases xs)
  case Nil
  then show ?thesis using assms by (simp add: py_min_def)
next
  case (Cons x rest)
  have b: "b = min_scan x rest" and idx: "idx = argmin_scan x 0 1 rest"
    using assms Cons by (simp_all add: py_min_def np_argmin_def)
  have nn: "NaN \<notin> set (x # rest)" using assms Cons by simp
  from argmin_scan_position[OF nn, of 0 1] show ?thesis
  proof
    assume "argmin_scan x 0 1 rest = 0 \<and> min_scan x rest = x"
    then show ?thesis using b idx Cons by simp
  next
    assume a: "1 \<le> argmin_scan x 0 1 rest \<and> argmin_scan x 0 1 rest < 1 + length rest \<and>
       rest ! (argmin_scan x 0 1 rest - 1) = min_scan x rest"
    then show ?thesis using b idx Cons by (cases idx) auto
  qed
qed

lemma py_min_least:
  assumes "NaN \<notin> set xs" "py_min xs = Inr b" "y \<in> set xs"
  shows "\<not> flt y b" and "b \<in> set xs"
proof -
  obtain x rest where xs: "xs = x # rest" using assms(3) by (cases xs) auto
  then have b: "b = min_scan x rest" using assms(2) by (simp add: py_min_def)
  show "\<not> flt y b" unfolding b using min_scan_least[of x rest y] assms(1,3) xs by simp
  show "b \<in> set xs" unfolding b xs by (rule min_scan_mem)
qed

lemma valid_objD: "valid_obj p \<Longrightarrow> \<exists>v. p ''obj'' = Some (VFloat v) \<and> v \<noteq> NaN"
  by (auto simp: valid_obj_def split: option.splits pyval.splits)

lemma objs_of_Nil: "objs_of [] = Inr []"
  by (simp add: objs_of_def)

lemma objs_of_Cons_Inr:
  "objs_of (p # ps) = Inr objs \<longleftrightarrow>
     (\<exists>v x xs. p ''obj'' = Some v \<and> num_of v = Inr x \<and> objs_of ps = Inr xs \<and> objs = x # xs)"
  by (auto simp: objs_of_def bind_exc_Inr lookup_def split: sum.splits option.splits)

lemma objs_of_length: "objs_of pop = Inr objs \<Longrightarrow> length objs = length pop"
  by (induction pop arbitrary: objs) (auto simp: objs_of_Nil objs_of_Cons_Inr)

lemma objs_of_nth:
  "objs_of pop = Inr objs \<Longrightarrow> i < length pop \<Longrightarrow>
     \<exists>v. (pop ! i) ''obj'' = Some v \<and> num_of v = Inr (objs ! i)"
proof (induction pop arbitrary: objs i)
  case Nil
  then show ?case by simp
next
  case (Cons p pop)
  from Cons.prems(1) obtain v x xs where v: "p ''obj'' = Some v" and x: "num_of v = Inr x"
    and xs: "objs_of pop = Inr xs" and objs: "objs = x # xs"
    unfolding objs_of_Cons_Inr by blast
  show ?case
  proof (cases i)
    case 0
    then show ?thesis using v x objs by simp
  next
    case (Suc j)
    then show ?thesis using Cons.IH[OF xs, of j] Cons.prems(2) objs by simp
  qed
qed

lemma objs_of_valid:
  assumes "\<forall>p \<in> set pop. valid_obj p"
  shows "\<exists>objs. objs_of pop = Inr objs \<and> NaN \<notin> set objs"
  using assms
proof (induction pop)
  case Nil
  then show ?case by (simp add: objs_of_Nil)
next
  case (Cons p pop)
  then obtain objs where o: "objs_of pop = Inr objs" "NaN \<notin> set objs" by auto
  from Cons.prems valid_objD[of p] obtain v where v: "p ''obj'' = Some (VFloat v)" "v \<noteq> NaN"
    by auto
  have "objs_of (p # pop) = Inr (v # objs)"
    unfolding objs_of_Cons_Inr using v(1) o(1) by simp
  then show ?case using o(2) v(2) by simp
qed

lemma update_best_overall_Inr:
  assumes "update_best_overall st b p = Inr st1"
  shows "elitist st1 = elitist st" "population st1 = population st" "iteration st1 = iteration st"
    "best_obj_overall st1 = (if flt b (best_obj_overall st) then b else best_obj_overall st)"
    "flt b (best_obj_overall st) \<longrightarrow> p ''description'' \<noteq> None"
  using assms
  by (auto simp: update_best_overall_def bind_exc_Inr lookup_def split: if_splits option.splits)

lemma update_elitist_Inr:
  assumes "update_elitist st1 b p = Inr st2"
  shows "population st2 = population st1" "best_obj_overall st2 = best_obj_overall st1"
    "elitist st1 = None \<longrightarrow> elitist st2 = Some p"
    "\<forall>el. elitist st1 = Some el \<longrightarrow>
       (\<exists>v w. el ''obj'' = Some v \<and> num_of v = Inr w \<and>
              elitist st2 = (if flt b w then Some p else Some el))"
proof -
  show "population st2 = population st1" "best_obj_overall st2 = best_obj_overall st1"
    "elitist st1 = None \<longrightarrow> elitist st2 = Some p"
    using assms
    by (auto simp: update_elitist_def bind_exc_Inr lookup_def split: if_splits option.splits)
  show "\<forall>el. elitist st1 = Some el \<longrightarrow>
       (\<exists>v w. el ''obj'' = Some v \<and> num_of v = Inr w \<and>
              elitist st2 = (if flt b w then Some p else Some el))"
  proof (intro allI impI)
    fix el assume el: "elitist st1 = Some el"
    from assms el obtain v w where v: "el ''obj'' = Some v" and w: "num_of v = Inr w"
      and st2: "st2 = (if flt b w then st1\<lparr>elitist := Some p\<rparr> else st1)"
      by (auto simp: update_elitist_def bind_exc_Inr lookup_def split: option.splits)
    have "elitist st2 = (if flt b w then Some p else Some el)"
      unfolding st2 using el by simp
    then show "\<exists>v w. el ''obj'' = Some v \<and> num_of v = Inr w \<and>
              elitist st2 = (if flt b w then Some p else Some el)"
      using v w by blast
  qed
qed

lemma update_iter_Inr:
  assumes "update_iter st = Inr st'"
  obtains objs best_obj idx st1 st2 where
    "objs_of (population st) = Inr objs" "py_min objs = Inr best_obj" "np_argmin objs = Inr idx"
    "update_best_overall st best_obj (population st ! idx) = Inr st1"
    "update_elitist st1 best_obj (population st ! idx) = Inr st2"
    "st' = st2\<lparr>iteration := iteration st2 + 1\<rparr>"
  using assms
  by (auto simp: update_iter_def Let_def bind_exc_Inr)

lemma launch_loop_Inr_code:
  "launch_loop e r pop st = Inr x \<Longrightarrow> \<forall>p \<in> set pop. p ''code'' \<noteq> None"
proof (induction pop arbitrary: r st x)
  case Nil
  then show ?case by simp
next
  case (Cons p pop)
  have c: "p ''code'' \<noteq> None"
  proof
    assume "p ''code'' = None"
    then show False using Cons.prems by simp
  qed
  from Cons.prems obtain y where "launch_loop e (Suc r) pop (launch_step e r p st) = Inr y"
    unfolding launch_loop_Cons[where p=p, OF c] by (auto split: sum.splits)
  from Cons.IH[OF this] c show ?case by simp
qed

lemma evaluate_population_Inr_code:
  "evaluate_population e st pop = Inr x \<Longrightarrow> \<forall>p \<in> set pop. p ''code'' \<noteq> None"
  by (auto simp: evaluate_population_def split: sum.splits dest: launch_loop_Inr_code)

lemma evaluate_population_Inr_readable:
  assumes "evaluate_population e st pop = Inr x"
  shows "captures_readable e st pop"
proof -
  have code: "\<forall>p \<in> set pop. p ''code'' \<noteq> None"
    using assms by (rule evaluate_population_Inr_code)
  let ?rs = "map (\<lambda>(i, ind). launched_entry e st i ind) (enumerate 0 pop)"
  from assms obtain tr y where w: "wait_loop e (iteration st) 0 ?rs tr = Inr y"
    unfolding evaluate_population_def launch_loop_closed[OF code]
    by (auto split: sum.splits)
  show ?thesis
    unfolding captures_readable_def
  proof (intro allI impI)
    fix i
    assume i: "i < length pop"
    show "capture_readable_at e st i (pop ! i)"
    proof (cases "run_code e st (pop ! i) i")
      case (Inl ex)
      then show ?thesis by (simp add: capture_readable_at_def)
    next
      case (Inr p)
      show ?thesis
      proof (cases "communicate p 20")
        case False
        then show ?thesis using Inr by (simp add: capture_readable_at_def)
      next
        case True
        have "launched_entry e st i (pop ! i) = (pop ! i, Some p)"
          using Inr run_code_Inr_code[OF Inr] by (simp add: launched_entry_def)
        then have sp: "snd (?rs ! i) = Some p" using launched_entries_nth[OF i, of e st] by simp
        have il: "i < length ?rs" using i by simp
        from wait_loop_Inr_readable[OF w il sp True] obtain s where
          "capture e (iteration st) i = Inr s" by auto
        then show ?thesis using Inr True by (simp add: capture_readable_at_def)
      qed
    qed
  qed
qed


lemma evaluate_population_Inr:
  assumes "evaluate_population e st pop = Inr (pop', st')"
  shows "pop' = map (\<lambda>(i, ind). evaluated e st i ind) (enumerate 0 pop)"
    and "st' = st\<lparr>function_evals := function_evals st + length (filter submitted pop),
                  trace := trace st @ process_events e st pop\<rparr>"
  using assms
    evaluate_population_closed[OF evaluate_population_Inr_code[OF assms]
                                  evaluate_population_Inr_readable[OF assms]]
  by simp_all

lemma update_iter_best:
  assumes "update_iter st = Inr st'"
  shows "(best_obj_overall st' = best_obj_overall st \<or>
          flt (best_obj_overall st') (best_obj_overall st)) \<and>
         (best_obj_overall st' \<noteq> best_obj_overall st \<longrightarrow>
            (\<exists>objs. objs_of (population st) = Inr objs \<and>
                    py_min objs = Inr (best_obj_overall st')))"
proof -
  from update_iter_Inr[OF assms] obtain objs best_obj idx st1 st2 where
    objs: "objs_of (population st) = Inr objs" and mn: "py_min objs = Inr best_obj"
    and am: "np_argmin objs = Inr idx"
    and u1: "update_best_overall st best_obj (population st ! idx) = Inr st1"
    and u2: "update_elitist st1 best_obj (population st ! idx) = Inr st2"
    and st': "st' = st2\<lparr>iteration := iteration st2 + 1\<rparr>"
    by blast
  have e1: "best_obj_overall st' = best_obj_overall st2" unfolding st' by simp
  have e2: "best_obj_overall st2 = best_obj_overall st1" by (rule update_elitist_Inr(2)[OF u2])
  have e3: "best_obj_overall st1 =
          (if flt best_obj (best_obj_overall st) then best_obj else best_obj_overall st)"
    by (rule update_best_overall_Inr(4)[OF u1])
  show ?thesis
  proof (cases "flt best_obj (best_obj_overall st)")
    case True
    then have b: "best_obj_overall st' = best_obj" unfolding e1 e2 e3 by simp
    have "\<exists>objs. objs_of (population st) = Inr objs \<and> py_min objs = Inr best_obj"
      using objs mn by blast
    then show ?thesis unfolding b using True by blast
  next
    case False
    then have "best_obj_overall st' = best_obj_overall st" unfolding e1 e2 e3 by simp
    then show ?thesis by blast
  qed
qed

lemma boundary_update:
  "update_iter boundary_state =
     Inr (boundary_state\<lparr>elitist := Some scored_a, iteration := 1\<rparr>)"
  by (simp add: update_iter_def boundary_state_def sample_state_def scored_a_def scored_b_def
        mark_invalid_individual_def sample_individual_def lookup_def objs_of_def py_min_def
        np_argmin_def
        update_best_overall_def update_elitist_def read_attr_def Let_def)

lemma described_update: "update_iter described_state = Inr described_update_result"
  by (simp add: update_iter_def described_state_def sample_state_def scored_a_def scored_b_def
        mark_invalid_individual_def sample_individual_def lookup_def objs_of_def py_min_def
        np_argmin_def
        update_best_overall_def update_elitist_def read_attr_def Let_def
        described_update_result_def)

section \<open>Random selection\<close>

lemma successful_filter:
  "\<forall>p \<in> set pool. p ''exec_success'' \<noteq> None \<Longrightarrow> successful pool = Inr (filter is_success pool)"
proof (induction pool)
  case Nil
  then show ?case by simp
next
  case (Cons p pool)
  then obtain v where v: "p ''exec_success'' = Some v" by auto
  have s: "is_success p = truthy v" using v by (simp add: is_success_def)
  have "successful pool = Inr (filter is_success pool)" using Cons by simp
  then show ?case using v s by (simp add: lookup_def)
qed

lemma second_position_props:
  assumes "2 \<le> n" "i < n"
  shows "second_position n i b < n" "second_position n i b \<noteq> i"
proof -
  have "b mod (n - 1) < n - 1" using assms(1) by simp
  then show "second_position n i b < n" "second_position n i b \<noteq> i"
    by (auto simp: second_position_def Let_def)
qed

lemma random_choice2_short:
  "length pop < 2 \<Longrightarrow> \<exists>m. random_choice2 ab pop = Inl (ValueError m)"
  by (simp add: random_choice2_def Let_def)

lemma random_choice2_pair:
  assumes "2 \<le> length pop"
  shows "\<exists>i j. i < length pop \<and> j < length pop \<and> i \<noteq> j \<and>
           random_choice2 ab pop = Inr [pop ! i, pop ! j]"
proof -
  let ?n = "length pop"
  let ?i = "fst ab mod ?n"
  let ?j = "second_position ?n ?i (snd ab)"
  have "0 < ?n" using assms by arith
  then have i: "?i < ?n" by simp
  from second_position_props[OF assms i, of "snd ab"] have j: "?j < ?n" "?j \<noteq> ?i" by simp_all
  have "pop \<noteq> []" "\<not> length pop < 2" using assms by auto
  then have "random_choice2 ab pop = Inr [pop ! ?i, pop ! ?j]"
    by (simp add: random_choice2_def Let_def)
  then show ?thesis using i j by metis
qed

lemma select_pairs_short:
  "length ok < 2 \<Longrightarrow> \<exists>m. select_pairs e it k (Suc n) ok = Inl (ValueError m)"
  using random_choice2_short[of ok "choice_draw e it k"] by auto

lemma select_pairs_ok:
  assumes "2 \<le> length ok"
  shows "\<exists>sel. select_pairs e it k n ok = Inr sel \<and> length sel = 2 * n \<and>
           (\<forall>m < n. \<exists>i j. i < length ok \<and> j < length ok \<and> i \<noteq> j \<and>
                      sel ! (2 * m) = ok ! i \<and> sel ! (2 * m + 1) = ok ! j)"
proof (induction n arbitrary: k)
  case 0
  then show ?case by simp
next
  case (Suc n)
  from random_choice2_pair[OF assms, of "choice_draw e it k"] obtain i j where
    ij: "i < length ok" "j < length ok" "i \<noteq> j"
    and rc: "random_choice2 (choice_draw e it k) ok = Inr [ok ! i, ok ! j]" by blast
  from Suc[of "Suc k"] obtain sel where
    sp: "select_pairs e it (Suc k) n ok = Inr sel" and len: "length sel = 2 * n"
    and pairs: "\<forall>m < n. \<exists>i j. i < length ok \<and> j < length ok \<and> i \<noteq> j \<and>
                      sel ! (2 * m) = ok ! i \<and> sel ! (2 * m + 1) = ok ! j" by blast
  let ?sel = "[ok ! i, ok ! j] @ sel"
  have a: "select_pairs e it k (Suc n) ok = Inr ?sel" using rc sp by simp
  have b: "length ?sel = 2 * Suc n" using len by simp
  have c: "\<forall>m < Suc n. \<exists>i j. i < length ok \<and> j < length ok \<and> i \<noteq> j \<and>
                      ?sel ! (2 * m) = ok ! i \<and> ?sel ! (2 * m + 1) = ok ! j"
  proof (intro allI impI)
    fix m assume m: "m < Suc n"
    show "\<exists>i j. i < length ok \<and> j < length ok \<and> i \<noteq> j \<and>
                      ?sel ! (2 * m) = ok ! i \<and> ?sel ! (2 * m + 1) = ok ! j"
    proof (cases m)
      case 0
      then show ?thesis using ij by auto
    next
      case (Suc m')
      then have "m' < n" using m by simp
      with pairs obtain i' j' where "i' < length ok" "j' < length ok" "i' \<noteq> j'"
        "sel ! (2 * m') = ok ! i'" "sel ! (2 * m' + 1) = ok ! j'" by blast
      then show ?thesis using Suc by auto
    qed
  qed
  show ?case using a b c by blast
qed

lemma scored_success: "is_success scored_a" "\<not> is_success scored_b"
  "scored_a ''exec_success'' \<noteq> None" "scored_b ''exec_success'' \<noteq> None"
  by (simp_all add: is_success_def scored_a_def scored_b_def mark_invalid_individual_def)

text \<open>
  The elitist is also an entry of the population it was taken from, so a pool can hold
  one individual at two positions; a pair then holds it twice.
\<close>

lemma random_select_same_individual_twice:
  "random_select sample_env sample_cfg sample_state [scored_a, scored_b, scored_a] =
     Inr [scored_a, scored_a]"
proof -
  have "successful [scored_a, scored_b, scored_a] = Inr [scored_a, scored_a]"
    using successful_filter[of "[scored_a, scored_b, scored_a]"] scored_success by simp
  then show ?thesis
    by (simp add: random_select_def sample_cfg_def random_choice2_def Let_def
          second_position_def sample_env_def sample_state_def)
qed

section \<open>The description field\<close>

lemma response_to_individual_dom:
  assumes "response_to_individual e st response rid fn = Inr q"
  shows "dom q = {''stdout_filepath'', ''code_path'', ''code'', ''response_id''}"
proof -
  from assms obtain code sp cp where
    q: "q = [''stdout_filepath'' \<mapsto> VStr sp, ''code_path'' \<mapsto> VStr cp,
             ''code'' \<mapsto> VStr code, ''response_id'' \<mapsto> VInt (int rid)]"
    by (auto simp: response_to_individual_def Let_def split: option.splits)
  show ?thesis unfolding q by auto
qed

lemma response_to_individual_fields:
  assumes "response_to_individual e st response rid fn = Inr q"
  shows "\<exists>code. q ''code'' = Some (VStr code)" "q ''description'' = None"
    "q ''traceback_msg'' = None"
proof -
  from assms obtain code sp cp where
    q: "q = [''stdout_filepath'' \<mapsto> VStr sp, ''code_path'' \<mapsto> VStr cp,
             ''code'' \<mapsto> VStr code, ''response_id'' \<mapsto> VInt (int rid)]"
    by (auto simp: response_to_individual_def Let_def split: option.splits)
  show "\<exists>code. q ''code'' = Some (VStr code)" "q ''description'' = None"
    "q ''traceback_msg'' = None"
    unfolding q by simp_all
qed

text \<open>An individual as a response made it, scored or not.\<close>

lemma undescribed:
  assumes "response_to_individual e st response rid fn = Inr q"
    and "\<forall>k. k \<notin> scored_keys \<longrightarrow> p k = q k"
  shows "p ''code'' \<noteq> None" "p ''description'' = None"
proof -
  have "''code'' \<notin> scored_keys" "''description'' \<notin> scored_keys"
    by (simp_all add: scored_keys_def)
  then have "p ''code'' = q ''code''" "p ''description'' = q ''description''"
    using assms(2) by blast+
  then show "p ''code'' \<noteq> None" "p ''description'' = None"
    using response_to_individual_fields[OF assms(1)] by auto
qed

lemma crossover_messages_undescribed:
  assumes "p1 ''code'' \<noteq> None" "p2 ''code'' \<noteq> None" "p1 ''description'' = None"
  shows "crossover_messages e c st p1 p2 = Inl (KeyError ''description'')"
proof -
  from assms obtain c1 c2 where "p1 ''code'' = Some c1" "p2 ''code'' = Some c2" by auto
  then show ?thesis using assms(3) by (simp add: crossover_messages_def lookup_def)
qed

lemma crossover_undescribed:
  assumes "pool \<noteq> []" "length pool = 2 * pop_size c"
    and "\<forall>p \<in> set pool. p ''code'' \<noteq> None \<and> p ''description'' = None"
  shows "crossover e c st pool = Inl (KeyError ''description'')"
proof -
  from assms(1,2) obtain p1 p2 rest where pool: "pool = p1 # p2 # rest"
    by (cases pool; cases "tl pool") auto
  have "crossover_messages e c st p1 p2 = Inl (KeyError ''description'')"
    using assms(3) pool by (simp add: crossover_messages_undescribed)
  then have "crossover_prompts e c st pool = Inl (KeyError ''description'')"
    unfolding pool by simp
  then show ?thesis using assms(2) by (simp add: crossover_def mult.commute)
qed

lemma update_iter_undescribed:
  assumes "objs_of (population st) = Inr objs" "py_min objs = Inr b" "np_argmin objs = Inr idx"
    and "flt b (best_obj_overall st)"
    and "(population st ! idx) ''code'' \<noteq> None" "(population st ! idx) ''description'' = None"
  shows "update_iter st = Inl (KeyError ''description'')"
proof -
  from assms(5) obtain c where "(population st ! idx) ''code'' = Some c" by auto
  then have "update_best_overall st b (population st ! idx) = Inl (KeyError ''description'')"
    using assms(4,6) by (simp add: update_best_overall_def lookup_def)
  then show ?thesis using assms(1-3) by (simp add: update_iter_def Let_def)
qed

lemma str_nat_0: "str_nat 0 = ''0''"
  by code_simp

lemma fresh_made:
  "response_to_individual sample_env sample_state ''def h(): pass'' 0 None = Inr fresh_individual"
  by (simp add: response_to_individual_def sample_env_def sample_state_def fresh_individual_def
        str_nat_0 Let_def)

lemma fresh_scored_frame: "\<forall>k. k \<notin> scored_keys \<longrightarrow> fresh_scored k = fresh_individual k"
  by (simp add: fresh_scored_def scored_keys_def)

lemma made_undescribed:
  assumes "\<exists>st0 response0 rid0 fn0 q0.
        response_to_individual e st0 response0 rid0 fn0 = Inr q0 \<and>
        (\<forall>k. k \<notin> scored_keys \<longrightarrow> p k = q0 k)"
  shows "p ''code'' \<noteq> None \<and> p ''description'' = None"
proof -
  from assms obtain st0 response0 rid0 fn0 q0 where
    r: "response_to_individual e st0 response0 rid0 fn0 = Inr q0"
    and k: "\<forall>k. k \<notin> scored_keys \<longrightarrow> p k = q0 k"
    by (elim exE conjE)
  from undescribed[OF r k] show ?thesis by (rule conjI)
qed

lemma made_scored:
  "\<exists>st0 response0 rid0 fn0 q0.
        response_to_individual sample_env st0 response0 rid0 fn0 = Inr q0 \<and>
        (\<forall>k. k \<notin> scored_keys \<longrightarrow> fresh_scored k = q0 k)"
  by (intro exI[of _ sample_state] exI[of _ "''def h(): pass''"] exI[of _ 0] exI[of _ None]
        exI[of _ fresh_individual] conjI)
     (rule fresh_made, rule fresh_scored_frame)

lemma made_fresh:
  "\<exists>st0 response0 rid0 fn0 q0.
        response_to_individual sample_env st0 response0 rid0 fn0 = Inr q0 \<and>
        (\<forall>k. k \<notin> scored_keys \<longrightarrow> fresh_individual k = q0 k)"
  by (intro exI[of _ sample_state] exI[of _ "''def h(): pass''"] exI[of _ 0] exI[of _ None]
        exI[of _ fresh_individual] conjI)
     (rule fresh_made, simp)

section \<open>The controller after its construction\<close>

lemma responses_from_undescribed:
  "responses_from e st r rs = Inr pop \<Longrightarrow> \<forall>p \<in> set pop. undescribed_individual p"
proof (induction rs arbitrary: r pop)
  case Nil
  then show ?case by simp
next
  case (Cons x rs)
  from Cons.prems obtain q pop' where q: "response_to_individual e st x r None = Inr q"
    and rest: "responses_from e st (Suc r) rs = Inr pop'" and pop: "pop = q # pop'"
    by (auto split: sum.splits)
  have "undescribed_individual q"
    using response_to_individual_fields[OF q] by (auto simp: undescribed_individual_def)
  then show ?case using Cons.IH[OF rest] pop by simp
qed

lemma evaluated_undescribed:
  "undescribed_individual p \<Longrightarrow> undescribed_individual (evaluated e st r p)"
proof -
  have "''code'' \<notin> scored_keys" "''description'' \<notin> scored_keys"
    by (simp_all add: scored_keys_def)
  then have "evaluated e st r p ''code'' = p ''code''"
    "evaluated e st r p ''description'' = p ''description''"
    by (simp_all add: evaluated_frame)
  then show "undescribed_individual p \<Longrightarrow> undescribed_individual (evaluated e st r p)"
    by (simp add: undescribed_individual_def)
qed

lemma evaluated_valid_obj: "valid_obj (evaluated e st r p)"
  using evaluated_fields[of e st r p] by (auto simp: valid_obj_def)

lemma evaluate_population_result:
  assumes "evaluate_population e st pop = Inr (pop', st')"
  shows "length pop' = length pop" "\<forall>p \<in> set pop'. valid_obj p"
    "(\<forall>p \<in> set pop. undescribed_individual p) \<longrightarrow> (\<forall>p \<in> set pop'. undescribed_individual p)"
proof -
  note eq = evaluate_population_Inr(1)[OF assms]
  show "length pop' = length pop" unfolding eq by simp
  show "\<forall>p \<in> set pop'. valid_obj p" unfolding eq by (auto simp: evaluated_valid_obj)
  show "(\<forall>p \<in> set pop. undescribed_individual p) \<longrightarrow> (\<forall>p \<in> set pop'. undescribed_individual p)"
  proof (intro impI ballI)
    fix p assume a: "\<forall>p \<in> set pop. undescribed_individual p" and p: "p \<in> set pop'"
    from p obtain i x where "(i, x) \<in> set (enumerate 0 pop)" "p = evaluated e st i x"
      unfolding eq by auto
    moreover then have "x \<in> set pop" by (auto simp: in_set_enumerate_eq)
    ultimately show "undescribed_individual p" using a evaluated_undescribed by blast
  qed
qed

lemma successful_subset: "successful pool = Inr ok \<Longrightarrow> set ok \<subseteq> set pool"
proof (induction pool arbitrary: ok)
  case Nil
  then show ?case by simp
next
  case (Cons p pool)
  from Cons.prems obtain v qs where "successful pool = Inr qs"
    and ok: "ok = (if truthy v then p # qs else qs)"
    by (auto split: sum.splits)
  from Cons.IH[OF this(1)] ok show ?case by auto
qed

lemma random_choice2_subset: "random_choice2 ab pop = Inr xs \<Longrightarrow> set xs \<subseteq> set pop"
proof -
  assume a: "random_choice2 ab pop = Inr xs"
  then have two: "2 \<le> length pop"
    by (auto simp: random_choice2_def Let_def split: if_splits)
  from random_choice2_pair[OF two, of ab] a show ?thesis by auto
qed

lemma select_pairs_subset: "select_pairs e it k n ok = Inr sel \<Longrightarrow> set sel \<subseteq> set ok"
proof (induction n arbitrary: k sel)
  case 0
  then show ?case by simp
next
  case (Suc n)
  from Suc.prems obtain xs sel' where x: "random_choice2 (choice_draw e it k) ok = Inr xs"
    and s: "select_pairs e it (Suc k) n ok = Inr sel'" and sel: "sel = xs @ sel'"
    by (auto split: sum.splits)
  from random_choice2_subset[OF x] Suc.IH[OF s] sel show ?case by simp
qed

lemma random_select_Inr:
  assumes "random_select e c st pool = Inr sel"
  shows "length sel = 2 * pop_size c" "set sel \<subseteq> set pool"
proof -
  from assms obtain ok where ok: "successful pool = Inr ok"
    and sp: "select_pairs e (iteration st) 0 (pop_size c) ok = Inr sel"
    and len: "length sel = 2 * pop_size c"
    by (auto simp: random_select_def bind_exc_Inr split: if_splits)
  show "length sel = 2 * pop_size c" by (rule len)
  show "set sel \<subseteq> set pool" using successful_subset[OF ok] select_pairs_subset[OF sp] by simp
qed

lemma crossover_Inr: "crossover e c st pool = Inr crossed \<Longrightarrow> length crossed = pop_size c"
  by (auto simp: crossover_def bind_exc_Inr split: if_splits)

lemma mutate_Inr: "mutate e c st pop = Inr mutated \<Longrightarrow> length mutated = pop_size c"
  by (auto simp: mutate_def bind_exc_Inr split: if_splits prod.splits)

lemma update_iter_empty: "population st = [] \<Longrightarrow> \<exists>err. update_iter st = Inl err"
  by (simp add: update_iter_def objs_of_def py_min_def)

lemma generation_raises:
  assumes "\<forall>p \<in> set (population st). undescribed_individual p"
    and "\<forall>el. elitist st = Some el \<longrightarrow> undescribed_individual el"
  shows "\<exists>err. generation e c st = Inl err"
proof (cases "diversify c")
  case True
  then show ?thesis by (simp add: generation_def)
next
  case False
  let ?pool = "case elitist st of None \<Rightarrow> population st | Some el \<Rightarrow> el # population st"
  have pool: "\<forall>p \<in> set ?pool. undescribed_individual p"
    using assms by (auto split: option.splits)
  have gen: "generation e c st =
     bind_exc (random_select e c st ?pool) (\<lambda>selected_population.
     bind_exc (crossover e c st selected_population) (\<lambda>crossed_population.
     bind_exc (mutate e c st crossed_population) (\<lambda>mutated_population.
     bind_exc (evaluate_population e st mutated_population) (\<lambda>(pop, st1).
       update_iter (st1\<lparr>population := pop\<rparr>)))))"
    using False by (simp add: generation_def Let_def)
  show ?thesis
  proof (cases "random_select e c st ?pool")
    case (Inl err)
    then show ?thesis by (simp add: gen)
  next
    case (Inr sel)
    note sel = random_select_Inr[OF Inr]
    show ?thesis
    proof (cases "pop_size c = 0")
      case nonzero: False
      then have ne: "sel \<noteq> []" using sel(1) by auto
      have "\<forall>p \<in> set sel. p ''code'' \<noteq> None \<and> p ''description'' = None"
        using pool sel(2) by (auto simp: undescribed_individual_def)
      from crossover_undescribed[OF ne sel(1) this]
      show ?thesis by (simp add: gen Inr)
    next
      case zero: True
      show ?thesis
      proof (cases "crossover e c st sel")
        case (Inl err)
        then show ?thesis by (simp add: gen Inr)
      next
        case crossed: (Inr crossed)
        show ?thesis
        proof (cases "mutate e c st crossed")
          case (Inl err)
          then show ?thesis by (simp add: gen Inr crossed)
        next
          case mutated: (Inr mutated)
          have m0: "mutated = []" using mutate_Inr[OF mutated] zero by simp
          show ?thesis
          proof (cases "evaluate_population e st mutated")
            case (Inl err)
            then show ?thesis by (simp add: gen Inr crossed mutated)
          next
            case ev: (Inr r)
            obtain pop st1 where r: "r = (pop, st1)" by (cases r)
            have "pop = []" using evaluate_population_result(1)[OF ev[unfolded r]] m0 by simp
            then have "population (st1\<lparr>population := pop\<rparr>) = []" by simp
            from update_iter_empty[OF this] obtain err where
              "update_iter (st1\<lparr>population := pop\<rparr>) = Inl err" ..
            then show ?thesis by (simp add: gen Inr crossed mutated ev r)
          qed
        qed
      qed
    qed
  qed
qed

lemma update_iter_no_improvement:
  assumes "update_iter st = Inr st'" "objs_of (population st) = Inr objs"
    and "py_min objs = Inr (best_obj_overall st)" "np_argmin objs = Inr idx"
    and "elitist st = None"
  shows "best_desc_overall st' = best_desc_overall st" "best_code_overall st' = best_code_overall st"
    "population st' = population st" "elitist st' = Some (population st ! idx)"
    "function_evals st' = function_evals st" "best_obj_overall st' = best_obj_overall st"
proof -
  from update_iter_Inr[OF assms(1)] obtain objs' best_obj idx' st1 st2 where
    o: "objs_of (population st) = Inr objs'" and m: "py_min objs' = Inr best_obj"
    and a: "np_argmin objs' = Inr idx'"
    and u1: "update_best_overall st best_obj (population st ! idx') = Inr st1"
    and u2: "update_elitist st1 best_obj (population st ! idx') = Inr st2"
    and st': "st' = st2\<lparr>iteration := iteration st2 + 1\<rparr>"
    by blast
  have e: "objs' = objs" using o assms(2) by simp
  have b: "best_obj = best_obj_overall st" using m assms(3) unfolding e by simp
  have i: "idx' = idx" using a assms(4) unfolding e by simp
  have "\<not> flt best_obj (best_obj_overall st)" unfolding b by (rule flt_irrefl)
  then have s1: "st1 = st" using u1 by (simp add: update_best_overall_def)
  have s2: "st2 = st\<lparr>elitist := Some (population st ! idx)\<rparr>"
    using u2 assms(5) unfolding s1 i by (simp add: update_elitist_def)
  show "best_desc_overall st' = best_desc_overall st" "best_code_overall st' = best_code_overall st"
    "population st' = population st" "elitist st' = Some (population st ! idx)"
    "function_evals st' = function_evals st" "best_obj_overall st' = best_obj_overall st"
    unfolding st' s2 by simp_all
qed

lemma init_population_state:
  assumes "init_population e c st = Inr st'" "best_desc_overall st = None" "elitist st = None"
  shows "best_desc_overall st' = None" "best_code_overall st' \<noteq> None"
    "\<forall>p \<in> set (population st'). undescribed_individual p"
    "\<forall>el. elitist st' = Some el \<longrightarrow> undescribed_individual el"
    "best_obj_overall st' \<noteq> NaN"
proof -
  from assms(1) obtain pop0 pop st1 objs best_obj idx code cp where
    rp: "responses_to_population e st
           (chat_completion e (pop_size c)
              [(''system'', generator_system_prompt e), (''user'', initial_user e),
               (''assistant'', seed_function e),
               (''user'', ''Improve over the above code. '' @ [CHR 0x0A] @ ''[code]:'' @ [CHR 0x0A])])
         = Inr pop0"
    and ev: "evaluate_population e st pop0 = Inr (pop, st1)"
    and o: "objs_of pop = Inr objs" and m: "py_min objs = Inr best_obj"
    and a: "np_argmin objs = Inr idx"
    and up: "update_iter (st1\<lparr>best_obj_overall := best_obj, best_code_overall := Some code,
                         best_code_path_overall := Some cp, population := pop\<rparr>) = Inr st'"
    by (auto simp: init_population_def Let_def bind_exc_Inr)
  let ?s = "st1\<lparr>best_obj_overall := best_obj, best_code_overall := Some code,
                         best_code_path_overall := Some cp, population := pop\<rparr>"
  have u0: "\<forall>p \<in> set pop0. undescribed_individual p"
    using rp responses_from_undescribed by (simp add: responses_to_population_def)
  note er = evaluate_population_result[OF ev]
  have u: "\<forall>p \<in> set pop. undescribed_individual p" using er(3) u0 by blast
  have st1: "best_desc_overall st1 = None" "elitist st1 = None"
    unfolding evaluate_population_Inr(2)[OF ev] using assms(2,3) by simp_all
  have so: "objs_of (population ?s) = Inr objs" using o by simp
  have sm: "py_min objs = Inr (best_obj_overall ?s)" using m by simp
  have se: "elitist ?s = None" using st1 by simp
  note ui = update_iter_no_improvement[OF up so sm a se]
  from objs_of_valid[OF er(2)] o have nn: "NaN \<notin> set objs" by simp
  from argmin_is_min[OF nn m a] objs_of_length[OF o] have idx: "idx < length pop" by simp
  from argmin_is_min[OF nn m a] have "best_obj \<in> set objs" by (metis nth_mem)
  then have bn: "best_obj \<noteq> NaN" using nn by auto
  show "best_desc_overall st' = None" using ui(1) st1 by simp
  show "best_code_overall st' \<noteq> None" using ui(2) by simp
  show "\<forall>p \<in> set (population st'). undescribed_individual p" using ui(3) u by simp
  show "\<forall>el. elitist st' = Some el \<longrightarrow> undescribed_individual el"
    using ui(4) u idx by simp
  show "best_obj_overall st' \<noteq> NaN" using ui(6) bn by simp
qed

lemma sample_responses:
  "responses_to_population sample_env sample_state
     (chat_completion sample_env (pop_size sample_cfg) ms) = Inr [fresh_individual]"
proof -
  have "chat_completion sample_env (pop_size sample_cfg) ms = [''def h(): pass'']"
    by (simp add: sample_env_def sample_cfg_def)
  then show ?thesis by (simp add: responses_to_population_def fresh_made)
qed

lemma sample_first_evaluation:
  "evaluate_population sample_env sample_state [fresh_individual] =
     Inr ([fresh_scored],
          sample_state\<lparr>function_evals := 1, trace := [Launched 0, Waited 0 20]\<rparr>)"
proof -
  have rc: "run_code sample_env st fresh_individual 0 =
              Inr finishing_proc" for st
    by (simp add: run_code_def fresh_individual_def sample_env_def)
  have c: "communicate finishing_proc 20"
    by (rule communicate_finishing)
  have cp: "capture sample_env 0 0 = Inr (sample_capture 0)"
    by (rule sample_capture_Inr)
  have sc: "score sample_env fresh_individual (sample_capture 0) = fresh_scored"
    by (simp add: score_def sample_env_def sample_capture_def second_to_last_def Let_def
          fresh_scored_def)
  have code: "fresh_individual ''code'' = Some (VStr ''def h(): pass'')"
    "fresh_individual ''stdout_filepath'' = Some (VStr ''problem_iter0_response0.txt_stdout.txt'')"
    by (simp_all add: fresh_individual_def)
  have it: "iteration sample_state = 0" "function_evals sample_state = 0" "trace sample_state = []"
    by (simp_all add: sample_state_def)
  show ?thesis
    by (simp add: evaluate_population_def Let_def code rc c cp sc it)
qed

lemma sample_init: "G2A_init sample_env sample_cfg = Inr init_state"
proof -
  have o: "objs_of [fresh_scored] = Inr [Fin 42.5]"
    by (simp add: objs_of_def fresh_scored_def lookup_def)
  have m: "py_min [Fin 42.5] = Inr (Fin 42.5)" "np_argmin [Fin 42.5] = Inr 0"
    by (simp_all add: py_min_def np_argmin_def)
  have l: "lookup fresh_scored ''code'' = Inr (VStr ''def h(): pass'')"
    "lookup fresh_scored ''code_path'' = Inr (VStr ''problem_iter0_code0.py'')"
    by (simp_all add: lookup_def fresh_scored_def fresh_individual_def)
  have up: "update_iter
      (sample_state\<lparr>function_evals := 1, trace := [Launched 0, Waited 0 20],
         best_obj_overall := Fin 42.5, best_code_overall := Some (VStr ''def h(): pass''),
         best_code_path_overall := Some (VStr ''problem_iter0_code0.py''),
         population := [fresh_scored]\<rparr>) = Inr init_state"
    by (simp add: update_iter_def Let_def o py_min_def np_argmin_def update_best_overall_def
          update_elitist_def read_attr_def sample_state_def init_state_def)
  have g: "G2A_init sample_env sample_cfg = init_population sample_env sample_cfg sample_state"
    by (simp add: G2A_init_def sample_state_def)
  show ?thesis
    unfolding g init_population_def Let_def sample_responses
    by (simp only: bind_exc.simps sample_first_evaluation prod.case o m l nth_Cons_0 up)
qed

section \<open>What evolve returns\<close>

text \<open>
  Claim C1 says that \<open>evolve\<close> ends its loop when the budget is exhausted and returns
  the best code, its description and its path. On an object that \<open>G2A.__init__\<close> has
  built, the source never gets there: \<open>init_population\<close> assigns
  \<open>best_code_overall\<close> and \<open>best_code_path_overall\<close> but not
  \<open>best_desc_overall\<close>, and no individual has a description. If the budget is
  already exhausted, the \<open>return\<close> statement raises \<open>AttributeError\<close>; otherwise
  the first pass through the loop body raises. For no bound on the number of loop tests
  does \<open>evolve\<close> return a result.
\<close>

theorem evolve_raises_after_init:
  assumes "G2A_init e c = Inr st"
  shows "(\<exists>err. evolve (Suc fuel) e c st = Some (Inl err)) \<and>
         (\<not> int (function_evals st) < max_fe c \<longrightarrow>
            evolve (Suc fuel) e c st = Some (Inl (AttributeError ''best_desc_overall''))) \<and>
         (\<forall>n r. evolve n e c st \<noteq> Some (Inr r))"
proof -
  let ?s0 = "\<lparr>iteration = 0, function_evals = 0, elitist = None, best_obj_overall = PInf,
        best_code_overall = None, best_desc_overall = None, best_code_path_overall = None,
        population = [], system_prompt = None, trace = []\<rparr>"
  have i: "init_population e c ?s0 = Inr st"
    using assms by (simp add: G2A_init_def)
  have h1: "best_desc_overall ?s0 = None" and h2: "elitist ?s0 = None" by simp_all
  note s = init_population_state[OF i h1 h2]
  have d: "best_desc_overall st = None" using s(1) by simp
  obtain code where code: "best_code_overall st = Some code" using s(2) by auto
  have res: "evolve_result st = Inl (AttributeError ''best_desc_overall'')"
    by (simp add: evolve_result_def read_attr_def code d)
  from generation_raises[OF s(3,4), of e c] obtain err where
    gen: "generation e c st = Inl err" ..
  have a: "\<exists>err. evolve (Suc k) e c st = Some (Inl err)" for k
    using res gen by simp
  have b: "\<not> int (function_evals st) < max_fe c \<longrightarrow>
            evolve (Suc fuel) e c st = Some (Inl (AttributeError ''best_desc_overall''))"
    using res by simp
  have n: "\<forall>n r. evolve n e c st \<noteq> Some (Inr r)"
  proof (intro allI)
    fix n r
    show "evolve n e c st \<noteq> Some (Inr r)"
    proof (cases n)
      case 0
      then show ?thesis by simp
    next
      case (Suc k)
      from a[of k] obtain err where "evolve (Suc k) e c st = Some (Inl err)" ..
      then show ?thesis unfolding Suc by simp
    qed
  qed
  show ?thesis by (intro conjI a b n)
qed

text \<open>
  With one response, whose harness prints the objective 42.5, and a budget of one
  evaluation, the constructor succeeds and uses up the budget; \<open>evolve\<close> then
  raises at its \<open>return\<close>.
\<close>

theorem evolve_raises_after_init_witness:
  "G2A_init sample_env sample_cfg = Inr init_state \<and>
   function_evals init_state = 1 \<and> max_fe sample_cfg = 1 \<and>
   evolve 1 sample_env sample_cfg init_state = Some (Inl (AttributeError ''best_desc_overall''))"
proof -
  have f: "function_evals init_state = 1" "max_fe sample_cfg = 1"
    by (simp_all add: init_state_def sample_cfg_def)
  then have n: "\<not> int (function_evals init_state) < max_fe sample_cfg" by simp
  from evolve_raises_after_init[OF sample_init, of 0, THEN conjunct2, THEN conjunct1, rule_format, OF n]
  show ?thesis using sample_init f by simp
qed

section \<open>An individual without code\<close>

text \<open>
  Claim C2 says that an individual whose code is \<open>None\<close> is marked invalid with
  \<open>Invalid response!\<close>, that no process is launched for it, and that the
  function-evaluation counter is incremented for it. The source increments the counter
  after the \<open>continue\<close> of the null-code branch, so the last part fails: evaluating
  the batch that holds one such individual leaves the counter at 0.
\<close>

theorem null_code_counter_counterexample:
  "evaluate_population sample_env sample_state [sample_individual VNone 0] =
     Inr ([mark_invalid_individual (sample_individual VNone 0) ''Invalid response!''],
          sample_state) \<and>
   function_evals sample_state = 0"
  by (simp add: evaluate_population_def sample_individual_def sample_state_def)

text \<open>
  Claim C2 as amended. An individual whose code is \<open>None\<close> is marked invalid with
  \<open>Invalid response!\<close>; the call causes no process event for its response id; and
  the counter grows by the number of individuals whose code is not \<open>None\<close>, so the
  individual itself is not counted. The call returns its population when the captures
  it reads can be read; the individual without code has no capture.
\<close>

theorem null_code_not_counted:
  assumes "\<forall>p \<in> set pop. p ''code'' \<noteq> None" and "i < length pop"
    and "(pop ! i) ''code'' = Some VNone" and "captures_readable e st pop"
  shows "\<exists>pop' st' evs. evaluate_population e st pop = Inr (pop', st') \<and>
     marked_invalid (pop' ! i) ''Invalid response!'' \<and>
     trace st' = trace st @ evs \<and> (\<forall>ev \<in> set evs. event_id ev \<noteq> i) \<and>
     function_evals st' = function_evals st + length (filter submitted pop) \<and>
     \<not> submitted (pop ! i) \<and>
     function_evals st' \<le> function_evals st + (length pop - 1)"
proof -
  from evaluate_population_nth[OF assms(1,4)] obtain pop' st' where
    ev: "evaluate_population e st pop = Inr (pop', st')"
    and nth: "\<forall>i < length pop. pop' ! i = evaluated e st i (pop ! i)"
    and fe: "function_evals st' = function_evals st + length (filter submitted pop)"
    and tr: "trace st' = trace st @ process_events e st pop"
    by blast
  have ns: "\<not> submitted (pop ! i)" using assms(3) by (simp add: submitted_def)
  have m: "marked_invalid (pop' ! i) ''Invalid response!''"
    using nth assms(2,3) by (simp add: evaluated_null mark_invalid_marked)
  have "filter (\<lambda>ev. event_id ev = i) (process_events e st pop) = []"
    unfolding process_events_about[OF assms(2)] using null_no_events[where ind="pop ! i", OF assms(3)] by simp
  then have none: "\<forall>ev \<in> set (process_events e st pop). event_id ev \<noteq> i"
    by (simp add: filter_empty_conv)
  have le: "function_evals st' \<le> function_evals st + (length pop - 1)"
    using fe filter_submitted_less[OF assms(2) ns] by simp
  show ?thesis
    by (intro exI[of _ pop'] exI[of _ st'] exI[of _ "process_events e st pop"] conjI)
       (rule ev m tr none fe ns le)+
qed

theorem null_code_not_counted_witness:
  "\<exists>pop' st' evs. evaluate_population sample_env sample_state sample_pop = Inr (pop', st') \<and>
     marked_invalid (pop' ! 1) ''Invalid response!'' \<and>
     trace st' = evs \<and> (\<forall>ev \<in> set evs. event_id ev \<noteq> 1) \<and>
     function_evals st' \<le> 6"
proof -
  have i: "1 < length sample_pop" by (simp add: sample_pop_def)
  have n: "(sample_pop ! 1) ''code'' = Some VNone"
    by (simp add: sample_pop_def sample_individual_def)
  from null_code_not_counted[OF sample_pop_code i n sample_captures_readable[of sample_state]]
  obtain pop' st' evs where
    ev: "evaluate_population sample_env sample_state sample_pop = Inr (pop', st')"
    and m: "marked_invalid (pop' ! 1) ''Invalid response!''"
    and tr: "trace st' = trace sample_state @ evs" and no: "\<forall>ev \<in> set evs. event_id ev \<noteq> 1"
    and fe: "function_evals st' = function_evals sample_state + length (filter submitted sample_pop)"
    and ns: "\<not> submitted (sample_pop ! 1)"
    and le: "function_evals st' \<le> function_evals sample_state + (length sample_pop - 1)"
    by (elim exE conjE)
  have "trace st' = evs" using tr by (simp add: sample_state_def)
  moreover have "function_evals st' \<le> 6" using le by (simp add: sample_state_def sample_pop_def)
  ultimately show ?thesis using ev m no by blast
qed

section \<open>The success flag\<close>

text \<open>
  Claim C3 says that after evaluation \<open>exec_success\<close> holds exactly when the objective
  is finite and positive and the failure message is empty. The source only asserts
  \<open>obj > 0\<close>: a harness whose second-to-last line is \<open>inf\<close> is a success with an
  infinite objective and fitness 0, as response 6 of the sample batch shows.
\<close>

theorem exec_success_with_infinite_objective_counterexample:
  "\<exists>pop' st'. evaluate_population sample_env sample_state sample_pop = Inr (pop', st') \<and>
     (pop' ! 6) ''exec_success'' = Some (VBool True) \<and>
     (pop' ! 6) ''obj'' = Some (VFloat PInf) \<and>
     (pop' ! 6) ''fitness'' = Some (VFloat (Fin 0)) \<and>
     (pop' ! 6) ''traceback_msg'' = None"
proof -
  from evaluate_population_nth[OF sample_pop_code sample_captures_readable[of sample_state]] obtain pop' st' where
    ev: "evaluate_population sample_env sample_state sample_pop = Inr (pop', st')"
    and nth: "\<forall>i < length sample_pop. pop' ! i = evaluated sample_env sample_state i (sample_pop ! i)"
    by blast
  have "6 < length sample_pop" by (simp add: sample_pop_def)
  then have eq: "pop' ! 6 = evaluated sample_env sample_state 6 (sample_pop ! 6)"
    using nth by blast
  have tb: "(sample_pop ! 6) ''traceback_msg'' = None"
    by (simp add: sample_pop_def sample_individual_def)
  have "(pop' ! 6) ''exec_success'' = Some (VBool True) \<and>
     (pop' ! 6) ''obj'' = Some (VFloat PInf) \<and>
     (pop' ! 6) ''fitness'' = Some (VFloat (Fin 0)) \<and>
     (pop' ! 6) ''traceback_msg'' = None"
    unfolding eq sample_evaluated_inf using tb by simp
  with ev show ?thesis by blast
qed

text \<open>
  Claim C3 as amended. For an individual that carries no failure message before its
  evaluation, \<open>exec_success\<close> is true afterwards exactly when its objective is greater
  than 0 (finite or infinite) and no failure message has been stored; a successful
  individual has fitness \<open>1 / objective\<close>, and every other one carries the four
  failure fields. The evaluation completes when the captures it reads can be read.
\<close>

theorem exec_success_iff_positive_objective:
  assumes "\<forall>q \<in> set pop. q ''code'' \<noteq> None" and "i < length pop"
    and "(pop ! i) ''traceback_msg'' = None" and "captures_readable e st pop"
  shows "\<exists>pop' st'. evaluate_population e st pop = Inr (pop', st') \<and>
     ((pop' ! i) ''exec_success'' = Some (VBool True) \<longleftrightarrow>
        (\<exists>v. (pop' ! i) ''obj'' = Some (VFloat v) \<and> flt (Fin 0) v) \<and>
        (pop' ! i) ''traceback_msg'' = None) \<and>
     ((pop' ! i) ''exec_success'' = Some (VBool True) \<longrightarrow>
        (\<exists>v f. (pop' ! i) ''obj'' = Some (VFloat v) \<and> one_over v = Inr f \<and>
               (pop' ! i) ''fitness'' = Some (VFloat f))) \<and>
     ((pop' ! i) ''exec_success'' \<noteq> Some (VBool True) \<longrightarrow> (\<exists>m. marked_invalid (pop' ! i) m))"
proof -
  from evaluate_population_nth[OF assms(1,4)] obtain pop' st' where
    ev: "evaluate_population e st pop = Inr (pop', st')"
    and nth: "\<forall>i < length pop. pop' ! i = evaluated e st i (pop ! i)"
    by blast
  have eqi: "pop' ! i = evaluated e st i (pop ! i)" using nth assms(2) by simp
  have "((pop' ! i) ''exec_success'' = Some (VBool True) \<longleftrightarrow>
        (\<exists>v. (pop' ! i) ''obj'' = Some (VFloat v) \<and> flt (Fin 0) v) \<and>
        (pop' ! i) ''traceback_msg'' = None) \<and>
     ((pop' ! i) ''exec_success'' = Some (VBool True) \<longrightarrow>
        (\<exists>v f. (pop' ! i) ''obj'' = Some (VFloat v) \<and> one_over v = Inr f \<and>
               (pop' ! i) ''fitness'' = Some (VFloat f))) \<and>
     ((pop' ! i) ''exec_success'' \<noteq> Some (VBool True) \<longrightarrow> (\<exists>m. marked_invalid (pop' ! i) m))"
    using evaluated_outcome[of e st i "pop ! i"]
  proof
    assume "\<exists>m. marked_invalid (evaluated e st i (pop ! i)) m"
    then obtain m where m: "marked_invalid (pop' ! i) m" using eqi by auto
    from marked_invalid_not_success[OF m] m show ?thesis by blast
  next
    assume "\<exists>v f. flt (Fin 0) v \<and> one_over v = Inr f \<and>
      evaluated e st i (pop ! i) = (pop ! i)(''obj'' \<mapsto> VFloat v, ''fitness'' \<mapsto> VFloat f,
                                 ''exec_success'' \<mapsto> VBool True)"
    then obtain v f where pos: "flt (Fin 0) v" and f: "one_over v = Inr f"
      and eq: "pop' ! i = (pop ! i)(''obj'' \<mapsto> VFloat v, ''fitness'' \<mapsto> VFloat f,
                                 ''exec_success'' \<mapsto> VBool True)"
      using eqi by auto
    show ?thesis unfolding eq using pos f assms(3) by simp
  qed
  with ev show ?thesis by blast
qed

theorem exec_success_iff_positive_objective_witness:
  "\<exists>pop' st'. evaluate_population sample_env sample_state sample_pop = Inr (pop', st') \<and>
     ((pop' ! 5) ''exec_success'' = Some (VBool True) \<longleftrightarrow>
        (\<exists>v. (pop' ! 5) ''obj'' = Some (VFloat v) \<and> flt (Fin 0) v) \<and>
        (pop' ! 5) ''traceback_msg'' = None)"
proof -
  have i: "5 < length sample_pop" by (simp add: sample_pop_def)
  have tb: "(sample_pop ! 5) ''traceback_msg'' = None"
    by (simp add: sample_pop_def sample_individual_def)
  from exec_success_iff_positive_objective[OF sample_pop_code i tb sample_captures_readable[of sample_state]]
  show ?thesis by blast
qed

section \<open>Selection needs two successful individuals\<close>

text \<open>
  Claim C4 says that random pairing selection completes whenever the pool contains at
  least one execution-successful individual. \<open>np.random.choice\<close> with \<open>size=2\<close> and
  \<open>replace=False\<close> raises on a population of one: a pool with exactly one successful
  individual makes \<open>random_select\<close> raise \<open>ValueError\<close>.
\<close>

theorem random_select_one_success_counterexample:
  "is_success scored_a \<and>
   random_select sample_env sample_cfg sample_state [scored_a, scored_b] =
     Inl (ValueError (''Cannot take a larger sample than population when ''
                      @ [CHR 0x27] @ ''replace=False'' @ [CHR 0x27]))"
proof -
  have "successful [scored_a, scored_b] = Inr [scored_a]"
    using successful_filter[of "[scored_a, scored_b]"] scored_success by simp
  then show ?thesis
    using scored_success(1)
    by (simp add: random_select_def sample_cfg_def random_choice2_def Let_def)
qed

text \<open>
  Claim C4 as amended. For a pool of scored individuals with at least two successful
  entries, \<open>random_select\<close> completes and returns \<open>2 * pop_size\<close> parents, and the
  two members of each pair come from two different positions of the filtered pool.
  With fewer than two successful entries and a positive population size it raises
  \<open>ValueError\<close>.
\<close>

theorem random_select_needs_two:
  assumes "\<forall>p \<in> set pool. p ''exec_success'' \<noteq> None"
  shows "(2 \<le> length (filter is_success pool) \<longrightarrow>
           (\<exists>sel. random_select e c st pool = Inr sel \<and> length sel = 2 * pop_size c \<and>
              (\<forall>m < pop_size c. \<exists>i j. i < length (filter is_success pool) \<and>
                  j < length (filter is_success pool) \<and> i \<noteq> j \<and>
                  sel ! (2 * m) = filter is_success pool ! i \<and>
                  sel ! (2 * m + 1) = filter is_success pool ! j))) \<and>
         (length (filter is_success pool) < 2 \<and> 0 < pop_size c \<longrightarrow>
           (\<exists>m. random_select e c st pool = Inl (ValueError m)))"
proof (rule conjI)
  let ?ok = "filter is_success pool"
  have s: "successful pool = Inr ?ok" using assms by (rule successful_filter)
  show "2 \<le> length ?ok \<longrightarrow>
           (\<exists>sel. random_select e c st pool = Inr sel \<and> length sel = 2 * pop_size c \<and>
              (\<forall>m < pop_size c. \<exists>i j. i < length ?ok \<and> j < length ?ok \<and> i \<noteq> j \<and>
                  sel ! (2 * m) = ?ok ! i \<and> sel ! (2 * m + 1) = ?ok ! j))"
  proof
    assume two: "2 \<le> length ?ok"
    from select_pairs_ok[OF two, of e "iteration st" 0 "pop_size c"] obtain sel where
      sp: "select_pairs e (iteration st) 0 (pop_size c) ?ok = Inr sel"
      and len: "length sel = 2 * pop_size c"
      and pairs: "\<forall>m < pop_size c. \<exists>i j. i < length ?ok \<and> j < length ?ok \<and> i \<noteq> j \<and>
                  sel ! (2 * m) = ?ok ! i \<and> sel ! (2 * m + 1) = ?ok ! j"
      by blast
    have "random_select e c st pool = Inr sel"
      using s sp len by (simp add: random_select_def)
    then show "\<exists>sel. random_select e c st pool = Inr sel \<and> length sel = 2 * pop_size c \<and>
              (\<forall>m < pop_size c. \<exists>i j. i < length ?ok \<and> j < length ?ok \<and> i \<noteq> j \<and>
                  sel ! (2 * m) = ?ok ! i \<and> sel ! (2 * m + 1) = ?ok ! j)"
      using len pairs by blast
  qed
  show "length ?ok < 2 \<and> 0 < pop_size c \<longrightarrow>
           (\<exists>m. random_select e c st pool = Inl (ValueError m))"
  proof
    assume a: "length ?ok < 2 \<and> 0 < pop_size c"
    then obtain n where n: "pop_size c = Suc n" by (cases "pop_size c") auto
    from a select_pairs_short[of ?ok e "iteration st" 0 n] obtain m where
      "select_pairs e (iteration st) 0 (Suc n) ?ok = Inl (ValueError m)" by blast
    then have "random_select e c st pool = Inl (ValueError m)"
      using s n by (simp add: random_select_def)
    then show "\<exists>m. random_select e c st pool = Inl (ValueError m)" by blast
  qed
qed

theorem random_select_needs_two_witness:
  "\<exists>sel. random_select sample_env sample_cfg sample_state [scored_a, scored_b, scored_a] = Inr sel \<and>
     length sel = 2 \<and>
     (\<exists>i j. i < 2 \<and> j < 2 \<and> i \<noteq> j \<and>
        sel ! 0 = [scored_a, scored_a] ! i \<and> sel ! 1 = [scored_a, scored_a] ! j)"
proof -
  have h: "\<forall>p \<in> set [scored_a, scored_b, scored_a]. p ''exec_success'' \<noteq> None"
    using scored_success by simp
  have f: "filter is_success [scored_a, scored_b, scored_a] = [scored_a, scored_a]"
    using scored_success by simp
  have p: "pop_size sample_cfg = 1" by (simp add: sample_cfg_def)
  from random_select_needs_two[OF h, of sample_env sample_cfg sample_state, THEN conjunct1]
  show ?thesis unfolding f p by (simp add: numeral_2_eq_2)
qed

section \<open>The elitist\<close>

text \<open>
  Claim C5. When \<open>update_iter\<close> completes on a population of evaluated individuals
  (their objectives are floats and numbers, as \<open>evaluate_population\<close> leaves them),
  there is an elitist, its objective is less than or equal to the objective of every
  individual of the current population, and it differs from the elitist before the
  update only if the new one comes from the population and its objective is strictly
  lower than the old elitist's.
\<close>

theorem elitist_is_minimal:
  assumes "\<forall>p \<in> set (population st). valid_obj p"
    and "\<forall>el. elitist st = Some el \<longrightarrow> valid_obj el"
    and "update_iter st = Inr st'"
  shows "\<exists>el v. elitist st' = Some el \<and> el ''obj'' = Some (VFloat v) \<and>
     population st' = population st \<and>
     (\<forall>p \<in> set (population st'). \<forall>w. p ''obj'' = Some (VFloat w) \<longrightarrow> fle v w) \<and>
     (elitist st' \<noteq> elitist st \<longrightarrow>
        el \<in> set (population st) \<and>
        (\<forall>old w. elitist st = Some old \<and> old ''obj'' = Some (VFloat w) \<longrightarrow> flt v w))"
proof -
  from update_iter_Inr[OF assms(3)] obtain objs best_obj idx st1 st2 where
    objs: "objs_of (population st) = Inr objs" and mn: "py_min objs = Inr best_obj"
    and am: "np_argmin objs = Inr idx"
    and u1: "update_best_overall st best_obj (population st ! idx) = Inr st1"
    and u2: "update_elitist st1 best_obj (population st ! idx) = Inr st2"
    and st': "st' = st2\<lparr>iteration := iteration st2 + 1\<rparr>"
    by blast
  let ?pop = "population st"
  let ?best = "?pop ! idx"
  from objs_of_valid[OF assms(1)] objs have nn: "NaN \<notin> set objs" by simp
  from argmin_is_min[OF nn mn am] have idx: "idx < length objs" and at: "objs ! idx = best_obj"
    by simp_all
  have len: "length objs = length ?pop" using objs by (rule objs_of_length)
  have mem: "?best \<in> set ?pop" using idx len by simp
  from objs_of_nth[OF objs, of idx] idx len at obtain v0 where
    v0: "?best ''obj'' = Some v0" "num_of v0 = Inr best_obj" by auto
  from valid_objD[of ?best] assms(1) mem v0 have bobj: "?best ''obj'' = Some (VFloat best_obj)"
    by auto
  have bN: "best_obj \<noteq> NaN" using nn at idx by (metis nth_mem)
  have least: "\<not> flt w best_obj \<and> w \<noteq> NaN" if "p \<in> set ?pop" "p ''obj'' = Some (VFloat w)" for p w
  proof -
    from that(1) obtain j where j: "j < length ?pop" "?pop ! j = p" by (auto simp: in_set_conv_nth)
    from objs_of_nth[OF objs j(1)] j(2) that(2) have "objs ! j = w" by auto
    then have "w \<in> set objs" using j(1) len by (metis nth_mem)
    then show ?thesis using py_min_least(1)[OF nn mn] nn by auto
  qed
  have pop': "population st' = ?pop"
    using st' update_elitist_Inr(1)[OF u2] update_best_overall_Inr(2)[OF u1] by simp
  have el1: "elitist st1 = elitist st" using update_best_overall_Inr(1)[OF u1] .
  have el': "elitist st' = elitist st2" using st' by simp
  show ?thesis
  proof (cases "elitist st")
    case None
    then have e: "elitist st' = Some ?best"
      using update_elitist_Inr(3)[OF u2] el1 el' by simp
    have a: "\<forall>p \<in> set (population st'). \<forall>w. p ''obj'' = Some (VFloat w) \<longrightarrow> fle best_obj w"
      unfolding pop' using least bN by (auto simp: fle_def)
    have b: "elitist st' \<noteq> elitist st \<longrightarrow> ?best \<in> set ?pop \<and>
        (\<forall>old w. elitist st = Some old \<and> old ''obj'' = Some (VFloat w) \<longrightarrow> flt best_obj w)"
      using mem None by simp
    show ?thesis
      by (intro exI[of _ ?best] exI[of _ best_obj] conjI) (rule e bobj pop' a b)+
  next
    case (Some old)
    from update_elitist_Inr(4)[OF u2] el1 Some obtain v w0 where
      ov: "old ''obj'' = Some v" and ow: "num_of v = Inr w0"
      and e2: "elitist st2 = (if flt best_obj w0 then Some ?best else Some old)"
      by auto
    from valid_objD[of old] assms(2) Some ov ow have oobj: "old ''obj'' = Some (VFloat w0)"
      and wN: "w0 \<noteq> NaN" by auto
    show ?thesis
    proof (cases "flt best_obj w0")
      case True
      then have e: "elitist st' = Some ?best" using e2 el' by simp
      have a: "\<forall>p \<in> set (population st'). \<forall>w. p ''obj'' = Some (VFloat w) \<longrightarrow> fle best_obj w"
        unfolding pop' using least bN by (auto simp: fle_def)
      have b: "elitist st' \<noteq> elitist st \<longrightarrow> ?best \<in> set ?pop \<and>
          (\<forall>old w. elitist st = Some old \<and> old ''obj'' = Some (VFloat w) \<longrightarrow> flt best_obj w)"
        using mem Some oobj True by simp
      show ?thesis
        by (intro exI[of _ ?best] exI[of _ best_obj] conjI) (rule e bobj pop' a b)+
    next
      case False
      then have e: "elitist st' = Some old" using e2 el' by simp
      have a: "\<forall>p \<in> set (population st'). \<forall>w. p ''obj'' = Some (VFloat w) \<longrightarrow> fle w0 w"
      proof (intro ballI allI impI)
        fix p w assume p: "p \<in> set (population st')" and w: "p ''obj'' = Some (VFloat w)"
        from least[of p w] p w pop' have l: "\<not> flt w best_obj" and wn: "w \<noteq> NaN" by simp_all
        have "\<not> flt w w0"
        proof
          assume "flt w w0"
          from fle_flt_trans[OF bN wn l this] False show False by simp
        qed
        then show "fle w0 w" using wN wn by (simp add: fle_def)
      qed
      have b: "elitist st' \<noteq> elitist st \<longrightarrow> old \<in> set ?pop \<and>
          (\<forall>old' w. elitist st = Some old' \<and> old' ''obj'' = Some (VFloat w) \<longrightarrow> flt w0 w)"
        using e Some by simp
      show ?thesis
        by (intro exI[of _ old] exI[of _ w0] conjI) (rule e oobj pop' a b)+
    qed
  qed
qed

theorem elitist_is_minimal_witness:
  "\<exists>el v. elitist (boundary_state\<lparr>elitist := Some scored_a, iteration := 1\<rparr>) = Some el \<and>
     el ''obj'' = Some (VFloat v) \<and>
     (\<forall>p \<in> set [scored_b, scored_a]. \<forall>w. p ''obj'' = Some (VFloat w) \<longrightarrow> fle v w)"
proof -
  have a: "\<forall>p \<in> set (population boundary_state). valid_obj p"
    by (simp add: boundary_state_def scored_a_def scored_b_def valid_obj_def
          mark_invalid_individual_def)
  have b: "\<forall>el. elitist boundary_state = Some el \<longrightarrow> valid_obj el"
    by (simp add: boundary_state_def sample_state_def)
  have p: "population (boundary_state\<lparr>elitist := Some scored_a, iteration := 1\<rparr>) =
             [scored_b, scored_a]"
    by (simp add: boundary_state_def)
  from elitist_is_minimal[OF a b boundary_update] show ?thesis
    unfolding p by blast
qed

section \<open>The best objective overall\<close>

text \<open>
  Claim C6. The bookkeeping step leaves \<open>best_obj_overall\<close> unchanged or replaces it
  with a strictly smaller value, and that value is the minimum of the current
  population's objectives; the same holds across a whole pass through the loop body of
  \<open>evolve\<close>. The value the constructor leaves is at most the infinity it started from.
\<close>

theorem best_obj_overall_non_increasing:
  "(update_iter st = Inr st' \<longrightarrow>
      (best_obj_overall st' = best_obj_overall st \<or>
       flt (best_obj_overall st') (best_obj_overall st)) \<and>
      (best_obj_overall st' \<noteq> best_obj_overall st \<longrightarrow>
         (\<exists>objs. objs_of (population st) = Inr objs \<and>
                 py_min objs = Inr (best_obj_overall st')))) \<and>
   (generation e c st = Inr st' \<longrightarrow>
      best_obj_overall st' = best_obj_overall st \<or>
      flt (best_obj_overall st') (best_obj_overall st)) \<and>
   (G2A_init e c = Inr st' \<longrightarrow> fle (best_obj_overall st') PInf)"
proof (intro conjI)
  show "update_iter st = Inr st' \<longrightarrow>
      (best_obj_overall st' = best_obj_overall st \<or>
       flt (best_obj_overall st') (best_obj_overall st)) \<and>
      (best_obj_overall st' \<noteq> best_obj_overall st \<longrightarrow>
         (\<exists>objs. objs_of (population st) = Inr objs \<and>
                 py_min objs = Inr (best_obj_overall st')))"
    by (rule impI) (rule update_iter_best)
next
  show "generation e c st = Inr st' \<longrightarrow>
      best_obj_overall st' = best_obj_overall st \<or>
      flt (best_obj_overall st') (best_obj_overall st)"
  proof
    assume "generation e c st = Inr st'"
    then obtain mutated pop st1 where
      ev: "evaluate_population e st mutated = Inr (pop, st1)"
      and up: "update_iter (st1\<lparr>population := pop\<rparr>) = Inr st'"
      by (auto simp: generation_def Let_def bind_exc_Inr split: if_splits)
    have "best_obj_overall (st1\<lparr>population := pop\<rparr>) = best_obj_overall st"
      unfolding evaluate_population_Inr(2)[OF ev] by simp
    with update_iter_best[OF up]
    show "best_obj_overall st' = best_obj_overall st \<or>
        flt (best_obj_overall st') (best_obj_overall st)" by simp
  qed
next
  show "G2A_init e c = Inr st' \<longrightarrow> fle (best_obj_overall st') PInf"
  proof
    let ?s0 = "\<lparr>iteration = 0, function_evals = 0, elitist = None, best_obj_overall = PInf,
        best_code_overall = None, best_desc_overall = None, best_code_path_overall = None,
        population = [], system_prompt = None, trace = []\<rparr>"
    assume "G2A_init e c = Inr st'"
    then have i: "init_population e c ?s0 = Inr st'" by (simp add: G2A_init_def)
    have h1: "best_desc_overall ?s0 = None" and h2: "elitist ?s0 = None" by simp_all
    from init_population_state(5)[OF i h1 h2]
    show "fle (best_obj_overall st') PInf" by (cases "best_obj_overall st'") (simp_all add: fle_def)
  qed
qed

theorem best_obj_overall_non_increasing_witness:
  "update_iter described_state = Inr (described_update_result) \<and>
   best_obj_overall described_state = PInf \<and>
   best_obj_overall described_update_result = Fin 42.5 \<and>
   flt (Fin 42.5) PInf \<and>
   (\<exists>objs. objs_of (population described_state) = Inr objs \<and> py_min objs = Inr (Fin 42.5))"
proof -
  have b: "best_obj_overall described_state = PInf"
    by (simp add: described_state_def sample_state_def)
  have b': "best_obj_overall described_update_result = Fin 42.5"
    by (simp add: described_update_result_def)
  note t = best_obj_overall_non_increasing[where st=described_state
      and st'=described_update_result, THEN conjunct1, rule_format, OF described_update]
  from t show ?thesis unfolding b b' using described_update by simp
qed

section \<open>Failure paths of the evaluator\<close>




section \<open>Order and completeness of the evaluator's output\<close>




section \<open>Timeouts\<close>



section \<open>Individuals have no description\<close>

text \<open>
  Claim C10. An individual built by \<open>response_to_individual\<close> has exactly the
  fields \<open>stdout_filepath\<close>, \<open>code_path\<close>, \<open>code\<close> and \<open>response_id\<close>. For a
  non-empty selection pool of the size \<open>crossover\<close> asserts, made only of such
  individuals (evaluated or not), \<open>crossover\<close> raises \<open>KeyError\<close> for
  \<open>description\<close>; and \<open>update_iter\<close> raises the same error when the best
  individual of the generation is such an individual and strictly improves on
  \<open>best_obj_overall\<close>.
\<close>

theorem individuals_lack_description:
  "(response_to_individual e st response rid fn = Inr q \<longrightarrow>
      dom q = {''stdout_filepath'', ''code_path'', ''code'', ''response_id''}) \<and>
   (pool \<noteq> [] \<and> length pool = 2 * pop_size c \<and>
    (\<forall>p \<in> set pool. \<exists>st0 response0 rid0 fn0 q0.
        response_to_individual e st0 response0 rid0 fn0 = Inr q0 \<and>
        (\<forall>k. k \<notin> scored_keys \<longrightarrow> p k = q0 k)) \<longrightarrow>
      crossover e c sc pool = Inl (KeyError ''description'')) \<and>
   (objs_of (population st') = Inr objs \<and> py_min objs = Inr b \<and> np_argmin objs = Inr idx \<and>
    flt b (best_obj_overall st') \<and>
    (\<exists>st0 response0 rid0 fn0 q0.
        response_to_individual e st0 response0 rid0 fn0 = Inr q0 \<and>
        (\<forall>k. k \<notin> scored_keys \<longrightarrow> (population st' ! idx) k = q0 k)) \<longrightarrow>
      update_iter st' = Inl (KeyError ''description''))"
proof (intro conjI impI)
  assume "response_to_individual e st response rid fn = Inr q"
  then show "dom q = {''stdout_filepath'', ''code_path'', ''code'', ''response_id''}"
    by (rule response_to_individual_dom)
next
  assume a: "pool \<noteq> [] \<and> length pool = 2 * pop_size c \<and>
    (\<forall>p \<in> set pool. \<exists>st0 response0 rid0 fn0 q0.
        response_to_individual e st0 response0 rid0 fn0 = Inr q0 \<and>
        (\<forall>k. k \<notin> scored_keys \<longrightarrow> p k = q0 k))"
  note ne = a[THEN conjunct1] and len = a[THEN conjunct2, THEN conjunct1]
    and made = a[THEN conjunct2, THEN conjunct2]
  have "\<forall>p \<in> set pool. p ''code'' \<noteq> None \<and> p ''description'' = None"
  proof
    fix p assume pin: "p \<in> set pool"
    have "\<exists>st0 response0 rid0 fn0 q0.
        response_to_individual e st0 response0 rid0 fn0 = Inr q0 \<and>
        (\<forall>k. k \<notin> scored_keys \<longrightarrow> p k = q0 k)"
      using made pin by (rule bspec)
    then show "p ''code'' \<noteq> None \<and> p ''description'' = None"
      by (rule made_undescribed)
  qed
  with ne len show "crossover e c sc pool = Inl (KeyError ''description'')"
    by (rule crossover_undescribed)
next
  assume a: "objs_of (population st') = Inr objs \<and> py_min objs = Inr b \<and>
    np_argmin objs = Inr idx \<and> flt b (best_obj_overall st') \<and>
    (\<exists>st0 response0 rid0 fn0 q0.
        response_to_individual e st0 response0 rid0 fn0 = Inr q0 \<and>
        (\<forall>k. k \<notin> scored_keys \<longrightarrow> (population st' ! idx) k = q0 k))"
  note o = a[THEN conjunct1] and m = a[THEN conjunct2, THEN conjunct1]
    and i = a[THEN conjunct2, THEN conjunct2, THEN conjunct1]
    and f = a[THEN conjunct2, THEN conjunct2, THEN conjunct2, THEN conjunct1]
    and made = a[THEN conjunct2, THEN conjunct2, THEN conjunct2, THEN conjunct2]
  from made_undescribed[OF made]
  have c: "(population st' ! idx) ''code'' \<noteq> None"
    and d: "(population st' ! idx) ''description'' = None" by simp_all
  from o m i f c d show "update_iter st' = Inl (KeyError ''description'')"
    by (rule update_iter_undescribed)
qed

theorem individuals_lack_description_witness:
  "dom fresh_individual = {''stdout_filepath'', ''code_path'', ''code'', ''response_id''} \<and>
   crossover sample_env sample_cfg sample_state [fresh_scored, fresh_individual] =
     Inl (KeyError ''description'') \<and>
   flt (Fin 42.5) (best_obj_overall improving_state) \<and>
   update_iter improving_state = Inl (KeyError ''description'')"
proof -
  note t = individuals_lack_description[where e=sample_env and st=sample_state
      and response="''def h(): pass''" and rid=0 and fn=None and q=fresh_individual
      and pool="[fresh_scored, fresh_individual]" and c=sample_cfg and sc=sample_state
      and st'=improving_state and objs="[Fin 42.5]" and b="Fin 42.5" and idx=0]
  have one: "dom fresh_individual = {''stdout_filepath'', ''code_path'', ''code'', ''response_id''}"
    by (rule t[THEN conjunct1, rule_format]) (rule fresh_made)
  have pool: "\<forall>p \<in> set [fresh_scored, fresh_individual]. \<exists>st0 response0 rid0 fn0 q0.
        response_to_individual sample_env st0 response0 rid0 fn0 = Inr q0 \<and>
        (\<forall>k. k \<notin> scored_keys \<longrightarrow> p k = q0 k)"
    using made_scored made_fresh by simp
  have len: "length [fresh_scored, fresh_individual] = 2 * pop_size sample_cfg"
    by (simp add: sample_cfg_def)
  have ne: "[fresh_scored, fresh_individual] \<noteq> []" by simp
  have two: "crossover sample_env sample_cfg sample_state [fresh_scored, fresh_individual] =
     Inl (KeyError ''description'')"
    by (rule t[THEN conjunct2, THEN conjunct1, rule_format]) (intro conjI ne len pool)
  have pop: "population improving_state ! 0 = fresh_scored"
    by (simp add: improving_state_def)
  have o: "objs_of (population improving_state) = Inr [Fin 42.5]"
    by (simp add: objs_of_def improving_state_def fresh_scored_def lookup_def)
  have m1: "py_min [Fin 42.5] = Inr (Fin 42.5)" and m2: "np_argmin [Fin 42.5] = Inr 0"
    by (simp_all add: py_min_def np_argmin_def)
  have f: "flt (Fin 42.5) (best_obj_overall improving_state)"
    by (simp add: improving_state_def sample_state_def)
  have made: "\<exists>st0 response0 rid0 fn0 q0.
        response_to_individual sample_env st0 response0 rid0 fn0 = Inr q0 \<and>
        (\<forall>k. k \<notin> scored_keys \<longrightarrow> (population improving_state ! 0) k = q0 k)"
    unfolding pop by (rule made_scored)
  have three: "update_iter improving_state = Inl (KeyError ''description'')"
    by (rule t[THEN conjunct2, THEN conjunct2, rule_format]) (intro conjI o m1 m2 f made)
  show ?thesis by (intro conjI one two f three)
qed

end
